theory Spec2Isabelle
  imports Complex_Main
begin


section \<open>JavaScript strings and numbers\<close>

text \<open>
  A JavaScript string is a sequence of UTF-16 code units. The story editor handles
  Japanese text, so a code unit is modelled as a natural number (below 65536 in every
  real string) rather than as an 8-bit \<open>char\<close>; \<open>length\<close> of the list is the
  \<^verbatim>\<open>.length\<close> of the string. ASCII literals of the source are written with
  \<open>ascii\<close>.
\<close>

type_synonym jschar = nat
type_synonym jsstring = "jschar list"

definition ascii :: "string \<Rightarrow> jsstring" where
  "ascii s = map of_char s"

text \<open>
  Template literals such as \<^verbatim>\<open>`v${versions.length + 1}`\<close> print a non-negative
  integer in decimal, without leading zeros.
\<close>

function string_of_nat :: "nat \<Rightarrow> jsstring" where
  "string_of_nat n =
     (if n < 10 then [48 + n] else string_of_nat (n div 10) @ [48 + n mod 10])"
  by pat_completeness auto
termination
  by (relation "measure (\<lambda>n. n)") auto

declare string_of_nat.simps [simp del]

text \<open>
  \<^verbatim>\<open>xs[i]\<close> for an integer \<open>i\<close>: \<^verbatim>\<open>undefined\<close> (here \<open>None\<close>) outside the
  array.
\<close>

definition nth_opt :: "'a list \<Rightarrow> int \<Rightarrow> 'a option" where
  "nth_opt xs i = (if 0 \<le> i \<and> i < int (length xs) then Some (xs ! nat i) else None)"

text \<open>\<^verbatim>\<open>xs.filter((_, index) => index !== i)\<close>\<close>

definition removeAt :: "int \<Rightarrow> 'a list \<Rightarrow> 'a list" where
  "removeAt i xs = map snd (filter (\<lambda>(k, x). int k \<noteq> i) (enumerate 0 xs))"

text \<open>The exceptions that the modelled code can raise or receive.\<close>

datatype error =
    NetworkError
  | TypeError
  | SyntaxError
  | InvalidResponseFormat
  | AudioQueryFailed
  | SynthesisFailed
  | DecodeFailed

section \<open>Data model\<close>

text \<open>
  Field names carry a short prefix of their interface, since record fields are global
  constants: \<open>rel_to\<close> is \<^verbatim>\<open>to\<close> of a relationship, \<open>c_id\<close> is \<^verbatim>\<open>id\<close> of a
  \<^verbatim>\<open>Character\<close>, \<open>n_id\<close> of a flowchart node, \<open>e_id\<close> of an edge, \<open>g_flowchart\<close> is
  \<^verbatim>\<open>flowchart\<close> of a \<^verbatim>\<open>GeminiResponse\<close> and \<open>sv_id\<close> is \<^verbatim>\<open>id\<close> of a
  \<^verbatim>\<open>StoryVersion\<close>.
\<close>

record Relationship =
  rel_to :: jsstring
  rel_type :: jsstring

record Character =
  c_id :: jsstring
  c_name :: jsstring
  c_description :: jsstring
  c_relationships :: "Relationship list"

record FlowNode =
  n_id :: jsstring
  n_label :: jsstring
  n_x :: int
  n_y :: int

record FlowEdge =
  e_id :: jsstring
  e_source :: jsstring
  e_target :: jsstring
  e_type :: jsstring
  e_animated :: bool

record Flowchart =
  fc_nodes :: "FlowNode list"
  fc_edges :: "FlowEdge list"

record GeminiResponse =
  g_text :: jsstring
  g_flowchart :: "Flowchart option"
  g_characters :: "Character list"
  g_plot :: "jsstring list"

record StoryVersion =
  sv_id :: jsstring
  sv_name :: jsstring
  sv_text :: jsstring
  sv_flowchartData :: "Flowchart option"
  sv_characters :: "Character list"
  sv_plot :: "jsstring list"
  sv_timestamp :: nat
  sv_description :: jsstring
  parentVersionId :: "jsstring option"

section \<open>Version Store: the state of App and its handlers\<close>

text \<open>
  The \<^verbatim>\<open>useState\<close> cells of \<^verbatim>\<open>App\<close> that the version handlers read and write.
  The loading flags, the map dialog flag and the relationship cache take no part in
  them and are left out. Indices are JavaScript numbers holding integers, so they are
  \<open>int\<close>: nothing in the type keeps them non-negative.

  Every handler is modelled as one atomic transition from the state it was started in:
  the replies of the awaited services are arguments (\<open>Inl\<close> a rejection, \<open>Inr\<close> the
  resolved value), and \<open>now\<close> is the value of \<^verbatim>\<open>Date.now()\<close>.
\<close>

record App =
  versions :: "StoryVersion list"
  currentVersionIndex :: int
  isCompareMode :: bool
  compareVersionIndex :: "int option"
  app_text :: jsstring
  flowchartData :: "Flowchart option"
  characters :: "Character list"
  editVersionDialog :: "(int \<times> jsstring) option"

definition initApp :: App where
  "initApp = \<lparr>versions = [], currentVersionIndex = 0, isCompareMode = False,
     compareVersionIndex = None, app_text = [], flowchartData = None, characters = [],
     editVersionDialog = None\<rparr>"

text \<open>
  The name of the first version: the seven code units of the source's literal (two
  kanji for "initial" and the katakana word for "version").
\<close>

definition initialVersionName :: jsstring where
  "initialVersionName = [0x521D, 0x671F, 0x30D0, 0x30FC, 0x30B8, 0x30E7, 0x30F3]"

text \<open>
  The prefix of the names given by \<^verbatim>\<open>createNewVersion\<close>: the katakana word for
  "version" and a space.
\<close>

definition versionNamePrefix :: jsstring where
  "versionNamePrefix = [0x30D0, 0x30FC, 0x30B8, 0x30E7, 0x30F3, 0x20]"

definition initialVersion :: "jsstring \<Rightarrow> GeminiResponse \<Rightarrow> nat \<Rightarrow> StoryVersion" where
  "initialVersion newText analysis now =
     \<lparr>sv_id = ascii ''v1'', sv_name = initialVersionName, sv_text = newText,
      sv_flowchartData = g_flowchart analysis, sv_characters = g_characters analysis,
      sv_plot = g_plot analysis, sv_timestamp = now, sv_description = [],
      parentVersionId = None\<rparr>"

text \<open>
  \<^verbatim>\<open>handleTextChange\<close>: the text is stored; below 50 code units nothing else happens;
  a failed analysis is caught and logged; the first successful analysis creates the
  root version. \<^verbatim>\<open>analysis.characters\<close> is always an array, hence truthy.
\<close>

definition handleTextChange ::
    "jsstring \<Rightarrow> error + GeminiResponse \<Rightarrow> nat \<Rightarrow> App \<Rightarrow> App" where
  "handleTextChange newText reply now s =
     (let s1 = s\<lparr>app_text := newText\<rparr> in
      if length newText < 50 then s1
      else (case reply of
          Inl e \<Rightarrow> s1
        | Inr analysis \<Rightarrow>
            (let s2 = (case g_flowchart analysis of
                         None \<Rightarrow> s1
                       | Some fc \<Rightarrow> s1\<lparr>flowchartData := Some fc\<rparr>);
                 s3 = s2\<lparr>characters := g_characters analysis\<rparr>
             in if length (versions s) = 0
                then s3\<lparr>versions := [initialVersion newText analysis now],
                        currentVersionIndex := 0\<rparr>
                else s3)))"

text \<open>
  \<^verbatim>\<open>createNewVersion\<close>, closed over the \<^verbatim>\<open>versions\<close> of the render it was created
  in: the id and the name are numbered by the length of the list.
\<close>

definition createNewVersion ::
    "StoryVersion list \<Rightarrow> jsstring \<Rightarrow> jsstring \<Rightarrow> jsstring \<Rightarrow> error + GeminiResponse \<Rightarrow> nat
      \<Rightarrow> error + StoryVersion" where
  "createNewVersion vs newText description parentId reply now =
     (case reply of
        Inl e \<Rightarrow> Inl e
      | Inr analysis \<Rightarrow>
          Inr \<lparr>sv_id = ascii ''v'' @ string_of_nat (length vs + 1),
               sv_name = versionNamePrefix @ string_of_nat (length vs + 1),
               sv_text = newText,
               sv_flowchartData = g_flowchart analysis,
               sv_characters = g_characters analysis,
               sv_plot = g_plot analysis,
               sv_timestamp = now,
               sv_description = description,
               parentVersionId = Some parentId\<rparr>)"

text \<open>
  The four rewrite handlers (\<^verbatim>\<open>handleModifyText\<close>, \<^verbatim>\<open>handleModifyEntireText\<close>,
  \<^verbatim>\<open>handleCharactersEdit\<close>, \<^verbatim>\<open>handleGenerateStoryFromFlowchart\<close>) repeat the same
  statements once the rewriter has returned \<open>newText\<close>; \<open>commitRewrite\<close> is that common
  part. \<open>reply1\<close> answers the handler's own \<^verbatim>\<open>analyzeText\<close>, \<open>reply2\<close> the one inside
  \<^verbatim>\<open>createNewVersion\<close>. The argument \<^verbatim>\<open>versions[currentVersionIndex].id\<close> is evaluated
  before \<^verbatim>\<open>createNewVersion\<close> is entered and raises a TypeError when there is no such
  version. Any error leaves the state as it was.
\<close>

definition commitRewrite ::
    "jsstring \<Rightarrow> jsstring \<Rightarrow> error + GeminiResponse \<Rightarrow> error + GeminiResponse \<Rightarrow> nat \<Rightarrow> App
      \<Rightarrow> error + App" where
  "commitRewrite newText description reply1 reply2 now s =
     (case reply1 of
        Inl e \<Rightarrow> Inl e
      | Inr analysis \<Rightarrow>
          (case nth_opt (versions s) (currentVersionIndex s) of
             None \<Rightarrow> Inl TypeError
           | Some cur \<Rightarrow>
               (case createNewVersion (versions s) newText description (sv_id cur) reply2 now of
                  Inl e \<Rightarrow> Inl e
                | Inr newVersion \<Rightarrow>
                    Inr (s\<lparr>versions := versions s @ [newVersion],
                           currentVersionIndex := int (length (versions s)),
                           app_text := newText,
                           flowchartData := g_flowchart analysis,
                           characters := g_characters analysis\<rparr>))))"

text \<open>
  A rewrite handler: \<open>rewritten\<close> is the outcome of the rewriter call and \<open>description\<close>
  the changelog entry the handler builds (a fixed Japanese label, followed by the prompt in two of the
  handlers). The state after the handler is the committed one, or the old one on any error
  (three of the handlers rethrow the error, the flowchart one only logs it).
\<close>

definition handleRewrite ::
    "jsstring \<Rightarrow> error + jsstring \<Rightarrow> error + GeminiResponse \<Rightarrow> error + GeminiResponse \<Rightarrow> nat
      \<Rightarrow> App \<Rightarrow> App" where
  "handleRewrite description rewritten reply1 reply2 now s =
     (case rewritten of
        Inl e \<Rightarrow> s
      | Inr newText \<Rightarrow>
          (case commitRewrite newText description reply1 reply2 now s of
             Inl e \<Rightarrow> s
           | Inr s' \<Rightarrow> s'))"

text \<open>
  \<^verbatim>\<open>handleReanalyze\<close>: the active version is replaced in place by a copy with the new
  analysis; reading \<^verbatim>\<open>.description\<close> of a missing version raises, which is caught.
\<close>

definition handleReanalyze :: "error + GeminiResponse \<Rightarrow> nat \<Rightarrow> App \<Rightarrow> App" where
  "handleReanalyze reply now s =
     (case reply of
        Inl e \<Rightarrow> s
      | Inr analysis \<Rightarrow>
          (case nth_opt (versions s) (currentVersionIndex s) of
             None \<Rightarrow> s
           | Some cur \<Rightarrow>
               (let updatedVersion = cur\<lparr>sv_flowchartData := g_flowchart analysis,
                                         sv_characters := g_characters analysis,
                                         sv_plot := g_plot analysis,
                                         sv_timestamp := now,
                                         sv_description := sv_description cur\<rparr>;
                    s1 = s\<lparr>versions := (versions s)[nat (currentVersionIndex s) := updatedVersion]\<rparr>;
                    s2 = (case g_flowchart analysis of
                            None \<Rightarrow> s1
                          | Some fc \<Rightarrow> s1\<lparr>flowchartData := Some fc\<rparr>)
                in s2\<lparr>characters := g_characters analysis\<rparr>)))"

text \<open>
  \<^verbatim>\<open>handleVersionChange\<close> reads the \<^verbatim>\<open>versions\<close> of its closure (\<open>vs\<close>). The index is
  stored before the version is dereferenced, so an index without a version leaves the
  new index behind and raises.
\<close>

definition versionChange :: "StoryVersion list \<Rightarrow> int \<Rightarrow> App \<Rightarrow> error option \<times> App" where
  "versionChange vs index s =
     (case nth_opt vs index of
        None \<Rightarrow> (Some TypeError, s\<lparr>currentVersionIndex := index\<rparr>)
      | Some version \<Rightarrow>
          (None, s\<lparr>currentVersionIndex := index,
                   app_text := sv_text version,
                   flowchartData := sv_flowchartData version,
                   characters := sv_characters version\<rparr>))"

definition handleVersionChange :: "int \<Rightarrow> App \<Rightarrow> error option \<times> App" where
  "handleVersionChange index s = versionChange (versions s) index s"

definition toggleCompareMode :: "App \<Rightarrow> App" where
  "toggleCompareMode s =
     (if \<not> isCompareMode s
      then s\<lparr>isCompareMode := True,
             compareVersionIndex :=
               Some (if currentVersionIndex s > 0 then currentVersionIndex s - 1 else 1)\<rparr>
      else s\<lparr>isCompareMode := False, compareVersionIndex := None\<rparr>)"

text \<open>
  \<^verbatim>\<open>handleVersionDelete\<close>. The call of \<^verbatim>\<open>handleVersionChange\<close> sees the list before
  the deletion; if it raises, the statements after it are not run.
\<close>

definition handleVersionDelete :: "int \<Rightarrow> App \<Rightarrow> error option \<times> App" where
  "handleVersionDelete indexToDelete s =
     (if indexToDelete = 0 then (None, s)
      else
        (let updatedVersions = removeAt indexToDelete (versions s);
             s1 = s\<lparr>versions := updatedVersions\<rparr>;
             (r, s2) =
               (if currentVersionIndex s = indexToDelete
                then versionChange (versions s) (indexToDelete - 1) s1
                else if currentVersionIndex s > indexToDelete
                then (None, s1\<lparr>currentVersionIndex := currentVersionIndex s - 1\<rparr>)
                else (None, s1))
         in case r of
              Some e \<Rightarrow> (Some e, s2)
            | None \<Rightarrow>
                (if isCompareMode s \<and> compareVersionIndex s = Some indexToDelete
                 then (None, s2\<lparr>compareVersionIndex := None, isCompareMode := False\<rparr>)
                 else (case compareVersionIndex s of
                         None \<Rightarrow> (None, s2)
                       | Some c \<Rightarrow>
                           (if c > indexToDelete
                            then (None, s2\<lparr>compareVersionIndex := Some (c - 1)\<rparr>)
                            else (None, s2))))))"

definition handleVersionNameEditStart :: "int \<Rightarrow> jsstring \<Rightarrow> App \<Rightarrow> App" where
  "handleVersionNameEditStart index currentName s =
     (if index = 0 then s else s\<lparr>editVersionDialog := Some (index, currentName)\<rparr>)"

text \<open>
  \<^verbatim>\<open>handleVersionNameSave\<close>. For an index outside the list JavaScript would store an
  object with a name only; the dialog is only ever opened on an existing tab, and the
  transition system below does not fire the save with such an index.
\<close>

definition handleVersionNameSave :: "App \<Rightarrow> App" where
  "handleVersionNameSave s =
     (case editVersionDialog s of
        None \<Rightarrow> s
      | Some (index, name) \<Rightarrow>
          s\<lparr>versions := (versions s)[nat index := (versions s ! nat index)\<lparr>sv_name := name\<rparr>],
            editVersionDialog := None\<rparr>)"

definition handleVersionNameCancel :: "App \<Rightarrow> App" where
  "handleVersionNameCancel s = s\<lparr>editVersionDialog := None\<rparr>"

subsection \<open>The events of the user interface\<close>

datatype event =
    TextChange jsstring "error + GeminiResponse" nat
  | Rewrite jsstring "error + jsstring" "error + GeminiResponse" "error + GeminiResponse" nat
  | Reanalyze "error + GeminiResponse" nat
  | VersionChange int
  | VersionDelete int
  | ToggleCompare
  | NameEditStart int
  | NameEdit jsstring
  | NameSave
  | NameCancel

text \<open>
  What the rendered interface offers: a tab, with its rename and delete buttons, exists
  for each version of the list (the buttons are not drawn on the first tab, and the
  handlers check index 0 themselves); the compare button is drawn when there are at
  least two versions.
\<close>

definition inRange :: "App \<Rightarrow> int \<Rightarrow> bool" where
  "inRange s i = (0 \<le> i \<and> i < int (length (versions s)))"

fun enabled :: "App \<Rightarrow> event \<Rightarrow> bool" where
  "enabled s (VersionChange i) = inRange s i"
| "enabled s (VersionDelete i) = inRange s i"
| "enabled s ToggleCompare = (length (versions s) > 1)"
| "enabled s (NameEditStart i) = inRange s i"
| "enabled s NameSave =
     (case editVersionDialog s of None \<Rightarrow> True | Some (i, name) \<Rightarrow> inRange s i)"
| "enabled s _ = True"

fun fire :: "event \<Rightarrow> App \<Rightarrow> App" where
  "fire (TextChange newText reply now) s = handleTextChange newText reply now s"
| "fire (Rewrite description rewritten reply1 reply2 now) s =
     handleRewrite description rewritten reply1 reply2 now s"
| "fire (Reanalyze reply now) s = handleReanalyze reply now s"
| "fire (VersionChange i) s = snd (handleVersionChange i s)"
| "fire (VersionDelete i) s = snd (handleVersionDelete i s)"
| "fire ToggleCompare s = toggleCompareMode s"
| "fire (NameEditStart i) s =
     (case nth_opt (versions s) i of
        None \<Rightarrow> s
      | Some version \<Rightarrow> handleVersionNameEditStart i (sv_name version) s)"
| "fire (NameEdit name) s =
     s\<lparr>editVersionDialog := map_option (\<lambda>(i, old). (i, name)) (editVersionDialog s)\<rparr>"
| "fire NameSave s = handleVersionNameSave s"
| "fire NameCancel s = handleVersionNameCancel s"

text \<open>
  Running a list of events from a state. An event that the interface does not offer
  cannot happen; it is skipped.
\<close>

definition step :: "event \<Rightarrow> App \<Rightarrow> App" where
  "step e s = (if enabled s e then fire e s else s)"

fun exec :: "event list \<Rightarrow> App \<Rightarrow> App" where
  "exec [] s = s"
| "exec (e # es) s = exec es (step e s)"

subsection \<open>The properties of the store\<close>

definition rootCount :: "StoryVersion list \<Rightarrow> nat" where
  "rootCount vs = length (filter (\<lambda>v. parentVersionId v = None) vs)"

definition parentsPresent :: "StoryVersion list \<Rightarrow> bool" where
  "parentsPresent vs =
     list_all (\<lambda>v. case parentVersionId v of
                     None \<Rightarrow> True
                   | Some p \<Rightarrow> p \<in> set (map sv_id vs)) vs"

definition indexValid :: "StoryVersion list \<Rightarrow> int \<Rightarrow> bool" where
  "indexValid vs i = (0 \<le> i \<and> i < int (length vs))"

text \<open>
  An event is orphaning in a state when it deletes a version, other than the first,
  whose id some version of the list carries as its \<open>parentVersionId\<close>.
\<close>

fun orphaning :: "App \<Rightarrow> event \<Rightarrow> bool" where
  "orphaning s (VersionDelete d) =
     (case nth_opt (versions s) d of
        None \<Rightarrow> False
      | Some v \<Rightarrow> d \<noteq> 0 \<and> list_ex (\<lambda>w. parentVersionId w = Some (sv_id v)) (versions s))"
| "orphaning s _ = False"

fun noOrphaning :: "event list \<Rightarrow> App \<Rightarrow> bool" where
  "noOrphaning [] s = True"
| "noOrphaning (e # es) s = (\<not> orphaning s e \<and> noOrphaning es (step e s))"

text \<open>The invariant of the reachable states, in three parts.\<close>

definition rootFirst :: "StoryVersion list \<Rightarrow> bool" where
  "rootFirst vs =
     (case vs of
        [] \<Rightarrow> True
      | first # children \<Rightarrow>
          parentVersionId first = None \<and> list_all (\<lambda>v. parentVersionId v \<noteq> None) children)"

definition activeValid :: "App \<Rightarrow> bool" where
  "activeValid s =
     ((versions s = [] \<longrightarrow> currentVersionIndex s = 0)
      \<and> (versions s \<noteq> [] \<longrightarrow> indexValid (versions s) (currentVersionIndex s)))"

definition compareValid :: "App \<Rightarrow> bool" where
  "compareValid s =
     ((isCompareMode s \<longleftrightarrow> compareVersionIndex s \<noteq> None)
      \<and> (\<forall>c. compareVersionIndex s = Some c \<longrightarrow> indexValid (versions s) c))"

definition storeInv :: "App \<Rightarrow> bool" where
  "storeInv s = (rootFirst (versions s) \<and> activeValid s \<and> compareValid s)"

subsection \<open>Sample sessions\<close>

definition sampleText :: jsstring where
  "sampleText = replicate 50 97"

definition emptyAnalysis :: GeminiResponse where
  "emptyAnalysis = \<lparr>g_text = [], g_flowchart = None, g_characters = [], g_plot = []\<rparr>"

definition typeStory :: event where
  "typeStory = TextChange sampleText (Inr emptyAnalysis) 0"

definition rewriteStory :: event where
  "rewriteStory = Rewrite [] (Inr sampleText) (Inr emptyAnalysis) (Inr emptyAnalysis) 0"

text \<open>
  Three versions in a chain v1, v2, v3, then: the last one deleted (\<open>leafSession\<close>); the
  middle one deleted (\<open>middleSession\<close>); the middle one deleted and one more rewrite
  (\<open>recreateSession\<close>).
\<close>

definition leafSession :: "event list" where
  "leafSession = [typeStory, rewriteStory, rewriteStory, VersionDelete 2]"

definition middleSession :: "event list" where
  "middleSession = [typeStory, rewriteStory, rewriteStory, VersionDelete 1]"

definition recreateSession :: "event list" where
  "recreateSession = [typeStory, rewriteStory, rewriteStory, VersionDelete 1, rewriteStory]"

definition sampleRoot :: StoryVersion where
  "sampleRoot = initialVersion sampleText emptyAnalysis 0"

definition sampleChild :: "nat \<Rightarrow> jsstring \<Rightarrow> StoryVersion" where
  "sampleChild n parent =
     \<lparr>sv_id = ascii ''v'' @ string_of_nat n,
      sv_name = versionNamePrefix @ string_of_nat n,
      sv_text = sampleText,
      sv_flowchartData = None, sv_characters = [], sv_plot = [],
      sv_timestamp = 0, sv_description = [], parentVersionId = Some parent\<rparr>"

text \<open>The chain v1, v2, v3 with v3 active, and the same with the compare mode switched on.\<close>

definition chain3 :: App where
  "chain3 = step rewriteStory (step rewriteStory (step typeStory initApp))"

definition compareSession :: "event list" where
  "compareSession = [typeStory, rewriteStory, rewriteStory, ToggleCompare]"


section \<open>Relationship analysis over the version list\<close>

text \<open>
  Both loops below await \<^verbatim>\<open>analyzeFlowchartRelationship\<close> once per iteration that
  reaches the call. The service is a parameter \<open>analyzer\<close>: its first argument is the
  number of calls made before in the same pass, so that two calls with equal arguments
  may be answered differently; the others are the two flowcharts (\<open>None\<close> for
  \<^verbatim>\<open>null\<close>) and the two texts. A pass returns the list of the calls it made, in
  order, and the cache object it built (a map from keys to results).
\<close>

type_synonym analyzerArgs = "Flowchart option \<times> Flowchart option \<times> jsstring \<times> jsstring"

type_synonym 'r analyzer = "nat \<Rightarrow> analyzerArgs \<Rightarrow> 'r"

type_synonym 'r pass = "analyzerArgs list \<times> (jsstring \<rightharpoonup> 'r)"

subsection \<open>VersionMap: the effect that runs when the map is open\<close>

text \<open>The key \<^verbatim>\<open>`${i}-${i-1}`\<close>.\<close>

definition positionKey :: "nat \<Rightarrow> jsstring" where
  "positionKey i = string_of_nat i @ ascii ''-'' @ string_of_nat (i - 1)"

text \<open>\<^verbatim>\<open>versions[i].flowchartData && versions[i-1].flowchartData\<close>\<close>

definition bothCharts :: "StoryVersion list \<Rightarrow> nat \<Rightarrow> bool" where
  "bothCharts vs i =
     (sv_flowchartData (vs ! i) \<noteq> None \<and> sv_flowchartData (vs ! (i - 1)) \<noteq> None)"

definition pairArgs :: "StoryVersion list \<Rightarrow> nat \<Rightarrow> analyzerArgs" where
  "pairArgs vs i =
     (sv_flowchartData (vs ! (i - 1)), sv_flowchartData (vs ! i),
      sv_text (vs ! (i - 1)), sv_text (vs ! i))"

text \<open>The loop \<^verbatim>\<open>for (let i = 1; i < versions.length; i++)\<close>, from \<open>i\<close> on.\<close>

function analyzeRelationshipsFrom ::
    "'r analyzer \<Rightarrow> StoryVersion list \<Rightarrow> nat \<Rightarrow> 'r pass \<Rightarrow> 'r pass" where
  "analyzeRelationshipsFrom analyzer vs i (calls, newRelationships) =
     (if i < length vs
      then (if bothCharts vs i
            then (let result = analyzer (length calls) (pairArgs vs i)
                  in analyzeRelationshipsFrom analyzer vs (i + 1)
                       (calls @ [pairArgs vs i], newRelationships(positionKey i \<mapsto> result)))
            else analyzeRelationshipsFrom analyzer vs (i + 1) (calls, newRelationships))
      else (calls, newRelationships))"
  by pat_completeness auto
termination
  by (relation "measure (\<lambda>(analyzer, vs, i, p). length vs - i)") auto

declare analyzeRelationshipsFrom.simps [simp del]

definition analyzeRelationships :: "'r analyzer \<Rightarrow> StoryVersion list \<Rightarrow> 'r pass" where
  "analyzeRelationships analyzer vs = analyzeRelationshipsFrom analyzer vs 1 ([], Map.empty)"

text \<open>
  The positions that a pass analyses, and the number of the call made for a position.
\<close>

definition analyzedPositions :: "StoryVersion list \<Rightarrow> nat list" where
  "analyzedPositions vs = filter (bothCharts vs) [1..<length vs]"

definition callNumber :: "StoryVersion list \<Rightarrow> nat \<Rightarrow> nat" where
  "callNumber vs i = length (filter (bothCharts vs) [1..<i])"

text \<open>
  What holds of a pass of the loop when it is about to look at position \<open>i\<close>: the calls
  made are those of the analysed positions below \<open>i\<close>, in order; the cache holds, under
  the key of each such position, the answer to its call, and nothing under the key of
  any other position; every key of the cache is the key of a position.
\<close>

definition passUpTo :: "'r analyzer \<Rightarrow> StoryVersion list \<Rightarrow> nat \<Rightarrow> 'r pass \<Rightarrow> bool" where
  "passUpTo analyzer vs i p =
     (fst p = map (pairArgs vs) (filter (bothCharts vs) [1..<i])
      \<and> (\<forall>j. snd p (positionKey j) =
             (if j \<in> set (filter (bothCharts vs) [1..<i])
              then Some (analyzer (callNumber vs j) (pairArgs vs j)) else None))
      \<and> dom (snd p) \<subseteq> range positionKey)"

subsection \<open>App: analyzeVersionRelationships, run by the reanalyze button\<close>

text \<open>
  The parent of a version as the loop finds it: none when \<open>parentVersionId\<close> is falsy
  (\<^verbatim>\<open>null\<close> or the empty string) or when \<^verbatim>\<open>versions.find\<close> finds no version with
  that id; otherwise the first version with that id.
\<close>

definition parentOf :: "StoryVersion list \<Rightarrow> StoryVersion \<Rightarrow> StoryVersion option" where
  "parentOf vs version =
     (case parentVersionId version of
        None \<Rightarrow> None
      | Some p \<Rightarrow> if p = [] then None else find (\<lambda>v. sv_id v = p) vs)"

text \<open>The key \<^verbatim>\<open>`${version.id}-${parentVersion.id}`\<close>.\<close>

definition edgeKey :: "StoryVersion \<times> StoryVersion \<Rightarrow> jsstring" where
  "edgeKey e = (case e of (parentVersion, version) \<Rightarrow>
     sv_id version @ ascii ''-'' @ sv_id parentVersion)"

definition edgeArgs :: "StoryVersion \<times> StoryVersion \<Rightarrow> analyzerArgs" where
  "edgeArgs e = (case e of (parentVersion, version) \<Rightarrow>
     (sv_flowchartData parentVersion, sv_flowchartData version,
      sv_text parentVersion, sv_text version))"

text \<open>The loop \<^verbatim>\<open>for (const version of versions)\<close> over the rest of the list.\<close>

fun analyzeVersionsLoop ::
    "'r analyzer \<Rightarrow> StoryVersion list \<Rightarrow> StoryVersion list \<Rightarrow> 'r pass \<Rightarrow> 'r pass" where
  "analyzeVersionsLoop analyzer vs [] (calls, newCache) = (calls, newCache)"
| "analyzeVersionsLoop analyzer vs (version # rest) (calls, newCache) =
     (case parentOf vs version of
        None \<Rightarrow> analyzeVersionsLoop analyzer vs rest (calls, newCache)
      | Some parentVersion \<Rightarrow>
          (let cacheKey = edgeKey (parentVersion, version);
               result = analyzer (length calls) (edgeArgs (parentVersion, version))
           in analyzeVersionsLoop analyzer vs rest
                (calls @ [edgeArgs (parentVersion, version)], newCache(cacheKey \<mapsto> result))))"

definition analyzeVersionRelationships :: "'r analyzer \<Rightarrow> StoryVersion list \<Rightarrow> 'r pass" where
  "analyzeVersionRelationships analyzer vs = analyzeVersionsLoop analyzer vs vs ([], Map.empty)"

text \<open>The parent-to-child edges of a list: each version that has a parent, with it.\<close>

definition parentEdges :: "StoryVersion list \<Rightarrow> (StoryVersion \<times> StoryVersion) list" where
  "parentEdges vs =
     List.map_filter (\<lambda>version. map_option (\<lambda>p. (p, version)) (parentOf vs version)) vs"

subsection \<open>A sample session with a fork\<close>

definition emptyChart :: Flowchart where
  "emptyChart = \<lparr>fc_nodes = [], fc_edges = []\<rparr>"

definition chartAnalysis :: GeminiResponse where
  "chartAnalysis =
     \<lparr>g_text = [], g_flowchart = Some emptyChart, g_characters = [], g_plot = []\<rparr>"

text \<open>
  A story of 50 characters is typed (v1); it is rewritten to "b" (v2); the first tab is
  selected again; the story is rewritten to "c" (v3, a second child of v1).
\<close>

definition forkSession :: "event list" where
  "forkSession =
     [TextChange sampleText (Inr chartAnalysis) 0,
      Rewrite [] (Inr (ascii ''b'')) (Inr chartAnalysis) (Inr chartAnalysis) 0,
      VersionChange 0,
      Rewrite [] (Inr (ascii ''c'')) (Inr chartAnalysis) (Inr chartAnalysis) 0]"

text \<open>The versions that this session leaves in the store.\<close>

definition forkChild :: "nat \<Rightarrow> jsstring \<Rightarrow> StoryVersion" where
  "forkChild n t =
     \<lparr>sv_id = ascii ''v'' @ string_of_nat n,
      sv_name = versionNamePrefix @ string_of_nat n,
      sv_text = t, sv_flowchartData = Some emptyChart,
      sv_characters = [], sv_plot = [], sv_timestamp = 0, sv_description = [],
      parentVersionId = Some (ascii ''v1'')\<rparr>"

definition forkStore :: "StoryVersion list" where
  "forkStore =
     [initialVersion sampleText chartAnalysis 0,
      forkChild 2 (ascii ''b''),
      forkChild 3 (ascii ''c'')]"

text \<open>An analyzer that answers with the number of the call.\<close>

definition countingAnalyzer :: "nat analyzer" where
  "countingAnalyzer n args = n"

section \<open>Analyzer Client: extractFlowchart\<close>

subsection \<open>Character classes and string helpers\<close>

text \<open>\<^verbatim>\<open>[A-Z]\<close>\<close>

definition isUpper :: "jschar \<Rightarrow> bool" where
  "isUpper c = (65 \<le> c \<and> c \<le> 90)"

text \<open>
  The line terminators, which \<^verbatim>\<open>.\<close> does not match: LF, CR, U+2028, U+2029.
\<close>

definition isLineTerminator :: "jschar \<Rightarrow> bool" where
  "isLineTerminator c = (c = 10 \<or> c = 13 \<or> c = 0x2028 \<or> c = 0x2029)"

text \<open>
  The white space of \<^verbatim>\<open>\s\<close> and of \<^verbatim>\<open>trim()\<close>: TAB, LF, VT, FF, CR, space,
  U+00A0, U+1680, U+2000 to U+200A, U+2028, U+2029, U+202F, U+205F, U+3000, U+FEFF.
\<close>

definition isSpace :: "jschar \<Rightarrow> bool" where
  "isSpace c =
     ((9 \<le> c \<and> c \<le> 13) \<or> c = 32 \<or> c = 0xA0 \<or> c = 0x1680 \<or> (0x2000 \<le> c \<and> c \<le> 0x200A)
      \<or> c = 0x2028 \<or> c = 0x2029 \<or> c = 0x202F \<or> c = 0x205F \<or> c = 0x3000 \<or> c = 0xFEFF)"

definition trim :: "jsstring \<Rightarrow> jsstring" where
  "trim s = rev (dropWhile isSpace (rev (dropWhile isSpace s)))"

text \<open>\<^verbatim>\<open>s.startsWith(p)\<close>, used for the literal parts of the patterns.\<close>

definition startsWith :: "jsstring \<Rightarrow> jsstring \<Rightarrow> bool" where
  "startsWith s p = (take (length p) s = p)"

text \<open>\<^verbatim>\<open>s.split('\n')\<close>: one more part than there are line feeds.\<close>

fun splitLines :: "jsstring \<Rightarrow> jsstring list" where
  "splitLines [] = [[]]"
| "splitLines (c # cs) =
     (if c = 10 then [] # splitLines cs
      else (case splitLines cs of
              [] \<Rightarrow> [[c]]
            | l # ls \<Rightarrow> (c # l) # ls))"

text \<open>\<^verbatim>\<open>s.split('-->')\<close>\<close>

fun splitArrow :: "jsstring \<Rightarrow> jsstring list" where
  "splitArrow (a # b # c # cs) =
     (if a = 45 \<and> b = 45 \<and> c = 62 then [] # splitArrow cs
      else (case splitArrow (b # c # cs) of
              [] \<Rightarrow> [[a]]
            | l # ls \<Rightarrow> (a # l) # ls))"
| "splitArrow s = [s]"

subsection \<open>The section pattern\<close>

text \<open>
  The pattern of \<^verbatim>\<open>flowchartSection\<close> is, piece by piece: the literal
  \<^verbatim>\<open>[FLOWCHART]\<close>; a lazy \<^verbatim>\<open>[\s\S]*?\<close>; the literal opening fence with the word
  mermaid; \<^verbatim>\<open>\s*\n\s*\<close>; the literal \<^verbatim>\<open>graph TD\<close> and a line feed; the captured
  lazy \<^verbatim>\<open>([\s\S]*?)\<close>; a line feed and the closing fence. A lazy star tries the
  shortest skip first and the engine takes the first start position that succeeds, so
  each function below walks the string and returns the first success.
\<close>

definition fence :: jsstring where
  "fence = [96, 96, 96]"

text \<open>The capture: everything up to the first line feed followed by a fence.\<close>

fun untilFence :: "jsstring \<Rightarrow> jsstring option" where
  "untilFence [] = None"
| "untilFence (c # cs) =
     (if startsWith (c # cs) (10 # fence) then Some []
      else map_option (\<lambda>body. c # body) (untilFence cs))"

text \<open>
  After the opening fence: \<^verbatim>\<open>\s*\n\s*\<close> matches a run of white space that contains a
  line feed, and since \<^verbatim>\<open>graph TD\<close> starts with a letter, the run is the whole white
  space in front of it.
\<close>

definition headerAndBody :: "jsstring \<Rightarrow> jsstring option" where
  "headerAndBody s =
     (let ws = takeWhile isSpace s; rest = dropWhile isSpace s
      in if 10 \<in> set ws \<and> startsWith rest (ascii ''graph TD'' @ [10])
         then untilFence (drop 9 rest)
         else None)"

fun fromMermaid :: "jsstring \<Rightarrow> jsstring option" where
  "fromMermaid [] = None"
| "fromMermaid (c # cs) =
     (if startsWith (c # cs) (fence @ ascii ''mermaid'')
      then (case headerAndBody (drop 10 (c # cs)) of
              Some body \<Rightarrow> Some body
            | None \<Rightarrow> fromMermaid cs)
      else fromMermaid cs)"

fun flowchartSection :: "jsstring \<Rightarrow> jsstring option" where
  "flowchartSection [] = None"
| "flowchartSection (c # cs) =
     (if startsWith (c # cs) (ascii ''[FLOWCHART]'')
      then (case fromMermaid (drop 11 (c # cs)) of
              Some body \<Rightarrow> Some body
            | None \<Rightarrow> flowchartSection cs)
      else flowchartSection cs)"

text \<open>\<^verbatim>\<open>flowchartSection[1].split('\n').map(l => l.trim()).filter(Boolean)\<close>\<close>

definition diagramLines :: "jsstring \<Rightarrow> jsstring list" where
  "diagramLines body = filter (\<lambda>l. l \<noteq> []) (map trim (splitLines body))"

subsection \<open>The node pattern\<close>

text \<open>
  \<^verbatim>\<open>(.*?)\]\<close> at the head of a string: the shortest run of characters other than line
  terminators that is followed by a closing bracket, and what follows the bracket.
\<close>

fun lazyLabel :: "jsstring \<Rightarrow> (jsstring \<times> jsstring) option" where
  "lazyLabel [] = None"
| "lazyLabel (c # cs) =
     (if c = 93 then Some ([], cs)
      else if isLineTerminator c then None
      else map_option (\<lambda>(label, rest). (c # label, rest)) (lazyLabel cs))"

text \<open>
  \<^verbatim>\<open>([A-Z])\[(.*?)\]\<close> at the head of a string: the id, the label and what follows the
  match.
\<close>

fun nodeTokenAt :: "jsstring \<Rightarrow> (jschar \<times> jsstring \<times> jsstring) option" where
  "nodeTokenAt (c # b # cs) =
     (if isUpper c \<and> b = 91
      then map_option (\<lambda>(label, rest). (c, label, rest)) (lazyLabel cs)
      else None)"
| "nodeTokenAt s = None"

text \<open>
  The tokens of a line: the matches of the pattern with the flag \<^verbatim>\<open>g\<close>, from left to
  right, each search starting where the match before ended; each with its id and label.
\<close>

function tokensOf :: "jsstring \<Rightarrow> (jschar \<times> jsstring) list" where
  "tokensOf [] = []"
| "tokensOf (c # cs) =
     (case nodeTokenAt (c # cs) of
        None \<Rightarrow> tokensOf cs
      | Some (i, label, rest) \<Rightarrow> (i, label) # tokensOf rest)"
  by pat_completeness auto
termination
proof (relation "measure length")
  show "wf (measure length)" by simp
next
  fix c :: jschar and cs :: jsstring
  show "(cs, c # cs) \<in> measure length" by simp
next
  fix c :: jschar and cs :: jsstring and x2 i y label rest
  assume t: "nodeTokenAt (c # cs) = Some x2" and x: "(i, y) = x2" and y: "(label, rest) = y"
  have shorter: "lazyLabel s = Some (l, r) \<Longrightarrow> length r < length s" for s l r
  proof (induction s arbitrary: l)
    case Nil
    then show ?case by simp
  next
    case (Cons a s)
    then show ?case by (fastforce split: if_splits)
  qed
  from t x y obtain b cs' where "cs = b # cs'" and "lazyLabel cs' = Some (label, rest)"
    by (cases cs) (auto split: if_splits)
  with shorter [of cs' label rest] show "(rest, c # cs) \<in> measure length" by simp
qed

declare tokensOf.simps [simp del]

text \<open>The matched text of a token, an element of the array that \<^verbatim>\<open>line.match\<close> returns.\<close>

definition matchedText :: "jschar \<times> jsstring \<Rightarrow> jsstring" where
  "matchedText t = (case t of (i, label) \<Rightarrow> i # 91 # label @ [93])"

definition nodeMatches :: "jsstring \<Rightarrow> jsstring list" where
  "nodeMatches line = map matchedText (tokensOf line)"

text \<open>
  The same pattern without the flag, as applied to each matched text: the first match
  from the left.
\<close>

fun firstNodeToken :: "jsstring \<Rightarrow> (jschar \<times> jsstring) option" where
  "firstNodeToken [] = None"
| "firstNodeToken (c # cs) =
     (case nodeTokenAt (c # cs) of
        None \<Rightarrow> firstNodeToken cs
      | Some (i, label, rest) \<Rightarrow> Some (i, label))"

subsection \<open>First pass: the nodes\<close>

definition pushNode :: "FlowNode list \<Rightarrow> jschar \<times> jsstring \<Rightarrow> FlowNode list" where
  "pushNode nodes t = (case t of (i, label) \<Rightarrow>
     (if find (\<lambda>n. n_id n = [i]) nodes \<noteq> None then nodes
      else nodes @ [\<lparr>n_id = [i], n_label = label, n_x = 100,
                     n_y = 100 + int (length nodes) * 100\<rparr>]))"

text \<open>\<^verbatim>\<open>nodeMatches.forEach(match => ...)\<close>\<close>

fun forEachMatch :: "FlowNode list \<Rightarrow> jsstring list \<Rightarrow> FlowNode list" where
  "forEachMatch nodes [] = nodes"
| "forEachMatch nodes (m # ms) =
     (case firstNodeToken m of
        None \<Rightarrow> forEachMatch nodes ms
      | Some t \<Rightarrow> forEachMatch (pushNode nodes t) ms)"

text \<open>\<^verbatim>\<open>lines.forEach(line => ...)\<close> of the first pass.\<close>

fun firstPass :: "FlowNode list \<Rightarrow> jsstring list \<Rightarrow> FlowNode list" where
  "firstPass nodes [] = nodes"
| "firstPass nodes (line # ls) = firstPass (forEachMatch nodes (nodeMatches line)) ls"

subsection \<open>Second pass: the edges\<close>

text \<open>\<^verbatim>\<open>part.match(/^([A-Z])/)\<close>\<close>

definition leadingId :: "jsstring \<Rightarrow> jschar option" where
  "leadingId part = (case part of [] \<Rightarrow> None | c # cs \<Rightarrow> if isUpper c then Some c else None)"

text \<open>
  One line with its index. A line without an arrow gives one part only, and none of
  the statements under \<^verbatim>\<open>if (line.includes('-->'))\<close> runs.
\<close>

definition edgeOfLine :: "nat \<Rightarrow> jsstring \<Rightarrow> FlowEdge option" where
  "edgeOfLine index line =
     (case map trim (splitArrow line) of
        fromPart # toPart # others \<Rightarrow>
          (case (leadingId fromPart, leadingId toPart) of
             (Some a, Some b) \<Rightarrow>
               Some \<lparr>e_id = ascii ''e'' @ string_of_nat index, e_source = [a], e_target = [b],
                     e_type = ascii ''smoothstep'', e_animated = False\<rparr>
           | _ \<Rightarrow> None)
      | _ \<Rightarrow> None)"

definition secondPass :: "jsstring list \<Rightarrow> FlowEdge list" where
  "secondPass ls = List.map_filter (\<lambda>(index, line). edgeOfLine index line) (enumerate 0 ls)"

definition extractFlowchart :: "jsstring \<Rightarrow> Flowchart option" where
  "extractFlowchart t =
     (case flowchartSection t of
        None \<Rightarrow> None
      | Some body \<Rightarrow>
          Some \<lparr>fc_nodes = firstPass [] (diagramLines body),
                fc_edges = secondPass (diagramLines body)\<rparr>)"

text \<open>The tokens of a diagram block, line after line.\<close>

definition blockTokens :: "jsstring \<Rightarrow> (jschar \<times> jsstring) list" where
  "blockTokens body = concat (map tokensOf (diagramLines body))"

text \<open>
  Two notions for the proofs: what every token of the pattern satisfies (an upper-case
  id, a label without closing bracket and without line terminator), and the first pass
  seen as one run of \<open>pushNode\<close> over a list of tokens.
\<close>

definition wellToken :: "jschar \<times> jsstring \<Rightarrow> bool" where
  "wellToken t = (isUpper (fst t) \<and> 93 \<notin> set (snd t)
                   \<and> (\<forall>c\<in>set (snd t). \<not> isLineTerminator c))"

fun pushAll :: "FlowNode list \<Rightarrow> (jschar \<times> jsstring) list \<Rightarrow> FlowNode list" where
  "pushAll nodes [] = nodes"
| "pushAll nodes (t # ts) = pushAll (pushNode nodes t) ts"

definition idLabels :: "FlowNode list \<Rightarrow> (jsstring \<times> jsstring) list" where
  "idLabels nodes = map (\<lambda>n. (n_id n, n_label n)) nodes"

definition tokenKey :: "jschar \<times> jsstring \<Rightarrow> jsstring \<times> jsstring" where
  "tokenKey t = ([fst t], snd t)"

text \<open>
  A reply in the format that the prompt of \<^verbatim>\<open>analyzeText\<close> asks for, up to the end of
  the diagram block; the node \<open>B\<close> is given two labels.
\<close>

definition sampleBody :: jsstring where
  "sampleBody = ascii ''A[go] --> B[one]'' @ [10] @ ascii ''B[two] --> C[end]''"

definition sampleReply :: jsstring where
  "sampleReply =
     ascii ''[FLOWCHART]'' @ [10] @ fence @ ascii ''mermaid'' @ [10]
     @ ascii ''graph TD'' @ [10] @ sampleBody @ [10] @ fence"

section \<open>Rewriter Client: the character diff of modifyStoryWithCharacters\<close>

subsection \<open>JSON.stringify of a relationship list\<close>

text \<open>
  \<^verbatim>\<open>JSON.stringify\<close> is a built-in of the language; the model follows its definition
  (QuoteJSONString and SerializeJSONArray/Object of ECMAScript 2019 and later) for the
  only values it is applied to here, arrays of objects with the string properties
  \<^verbatim>\<open>to\<close> and \<^verbatim>\<open>type\<close>, in this order. No indentation is requested, so there is no
  white space between the tokens.
\<close>

definition hexDigit :: "nat \<Rightarrow> jschar" where
  "hexDigit d = (if d < 10 then 48 + d else 87 + d)"

text \<open>\<^verbatim>\<open>\uXXXX\<close> with four lower-case hexadecimal digits.\<close>

definition unicodeEscape :: "jschar \<Rightarrow> jsstring" where
  "unicodeEscape c =
     [92, 117, hexDigit (c div 4096 mod 16), hexDigit (c div 256 mod 16),
      hexDigit (c div 16 mod 16), hexDigit (c mod 16)]"

definition isLeadSurrogate :: "jschar \<Rightarrow> bool" where
  "isLeadSurrogate c = (0xD800 \<le> c \<and> c \<le> 0xDBFF)"

definition isTrailSurrogate :: "jschar \<Rightarrow> bool" where
  "isTrailSurrogate c = (0xDC00 \<le> c \<and> c \<le> 0xDFFF)"

text \<open>
  One code point that is not a surrogate pair: the two-character escapes for backspace,
  tab, line feed, form feed, carriage return, the double quote and the backslash; a
  \<^verbatim>\<open>\u\<close> escape for the other control characters and for a lone surrogate; the
  character itself otherwise.
\<close>

definition escapeUnit :: "jschar \<Rightarrow> jsstring" where
  "escapeUnit c =
     (if c = 8 then [92, 98]
      else if c = 9 then [92, 116]
      else if c = 10 then [92, 110]
      else if c = 12 then [92, 102]
      else if c = 13 then [92, 114]
      else if c = 34 then [92, 34]
      else if c = 92 then [92, 92]
      else if c < 32 \<or> isLeadSurrogate c \<or> isTrailSurrogate c then unicodeEscape c
      else [c])"

text \<open>
  The characters between the quotes: a lead surrogate followed by a trail surrogate is
  one code point and is copied; every other code unit is a code point of its own.
\<close>

fun quoteUnits :: "jsstring \<Rightarrow> jsstring" where
  "quoteUnits [] = []"
| "quoteUnits [c] = escapeUnit c"
| "quoteUnits (c # d # cs) =
     (if isLeadSurrogate c \<and> isTrailSurrogate d then c # d # quoteUnits cs
      else escapeUnit c @ quoteUnits (d # cs))"

definition quoteJSONString :: "jsstring \<Rightarrow> jsstring" where
  "quoteJSONString s = 34 # quoteUnits s @ [34]"

definition stringifyRelationship :: "Relationship \<Rightarrow> jsstring" where
  "stringifyRelationship r =
     [123] @ quoteJSONString (ascii ''to'') @ [58] @ quoteJSONString (rel_to r)
     @ [44] @ quoteJSONString (ascii ''type'') @ [58] @ quoteJSONString (rel_type r) @ [125]"

text \<open>The elements of an array, separated by commas.\<close>

fun joinRelationships :: "Relationship list \<Rightarrow> jsstring" where
  "joinRelationships [] = []"
| "joinRelationships [r] = stringifyRelationship r"
| "joinRelationships (r # r' # rs) =
     stringifyRelationship r @ 44 # joinRelationships (r' # rs)"

definition stringifyRelationships :: "Relationship list \<Rightarrow> jsstring" where
  "stringifyRelationships rs = 91 # joinRelationships rs @ [93]"

subsection \<open>A reader for the proofs\<close>

text \<open>
  \<open>unquoteUnits\<close> reads the characters of a JSON string up to the closing quote and
  returns them with the text after the quote. It is not part of the program: it serves
  to show that \<open>quoteUnits\<close> loses nothing.
\<close>

definition unhex :: "jschar \<Rightarrow> nat option" where
  "unhex h =
     (if 48 \<le> h \<and> h \<le> 57 then Some (h - 48)
      else if 97 \<le> h \<and> h \<le> 102 then Some (h - 87)
      else None)"

definition unescape :: "jschar \<Rightarrow> jschar option" where
  "unescape e =
     (if e = 98 then Some 8
      else if e = 116 then Some 9
      else if e = 110 then Some 10
      else if e = 102 then Some 12
      else if e = 114 then Some 13
      else if e = 34 then Some 34
      else if e = 92 then Some 92
      else None)"

definition consUnit :: "jschar \<Rightarrow> (jsstring \<times> jsstring) option \<Rightarrow> (jsstring \<times> jsstring) option" where
  "consUnit c p = map_option (\<lambda>(s, r). (c # s, r)) p"

fun unquoteUnits :: "jsstring \<Rightarrow> (jsstring \<times> jsstring) option" where
  "unquoteUnits [] = None"
| "unquoteUnits (c # cs) =
     (if c = 34 then Some ([], cs)
      else if c \<noteq> 92 then consUnit c (unquoteUnits cs)
      else (case cs of
              [] \<Rightarrow> None
            | e # r \<Rightarrow>
                (if e \<noteq> 117
                 then (case unescape e of
                         None \<Rightarrow> None
                       | Some v \<Rightarrow> consUnit v (unquoteUnits r))
                 else (case r of
                         h1 # h2 # h3 # h4 # r' \<Rightarrow>
                           (case (unhex h1, unhex h2, unhex h3, unhex h4) of
                              (Some a, Some b, Some c', Some d) \<Rightarrow>
                                consUnit (4096 * a + 256 * b + 16 * c' + d) (unquoteUnits r')
                            | _ \<Rightarrow> None)
                       | _ \<Rightarrow> None))))"

subsection \<open>The diff\<close>

datatype changeType = modified | added | deleted

record FieldChanges =
  chg_name :: bool
  chg_description :: bool
  chg_relationships :: bool

text \<open>
  The interface \<^verbatim>\<open>CharacterChange\<close>; an optional property that is absent is \<open>None\<close>.
  The fields \<open>cc_type\<close>, \<open>cc_original\<close>, \<open>cc_modified\<close> and \<open>cc_changes\<close> are its
  \<^verbatim>\<open>type\<close>, \<^verbatim>\<open>original\<close>, \<^verbatim>\<open>modified\<close> and \<^verbatim>\<open>changes\<close>.
\<close>

record CharacterChange =
  cc_type :: changeType
  cc_original :: "Character option"
  cc_modified :: "Character option"
  cc_changes :: "FieldChanges option"

text \<open>The callback of \<^verbatim>\<open>modifiedCharacters.map\<close>.\<close>

definition changeOf :: "Character list \<Rightarrow> Character \<Rightarrow> CharacterChange" where
  "changeOf originalCharacters modChar =
     (case find (\<lambda>c. c_id c = c_id modChar) originalCharacters of
        Some origChar \<Rightarrow>
          \<lparr>cc_type = modified,
           cc_original = Some origChar,
           cc_modified = Some modChar,
           cc_changes = Some
             \<lparr>chg_name = (c_name origChar \<noteq> c_name modChar),
              chg_description = (c_description origChar \<noteq> c_description modChar),
              chg_relationships =
                (stringifyRelationships (c_relationships origChar)
                   \<noteq> stringifyRelationships (c_relationships modChar))\<rparr>\<rparr>
      | None \<Rightarrow>
          \<lparr>cc_type = added, cc_original = None, cc_modified = Some modChar,
           cc_changes = None\<rparr>)"

definition characterChanges :: "Character list \<Rightarrow> Character list \<Rightarrow> CharacterChange list" where
  "characterChanges originalCharacters modifiedCharacters =
     map (changeOf originalCharacters) modifiedCharacters"

definition deletedCharacters :: "Character list \<Rightarrow> Character list \<Rightarrow> CharacterChange list" where
  "deletedCharacters originalCharacters modifiedCharacters =
     map (\<lambda>char. \<lparr>cc_type = deleted, cc_original = Some char, cc_modified = None,
                   cc_changes = None\<rparr>)
       (filter (\<lambda>origChar. \<not> list_ex (\<lambda>modChar. c_id modChar = c_id origChar) modifiedCharacters)
          originalCharacters)"

definition allChanges :: "Character list \<Rightarrow> Character list \<Rightarrow> CharacterChange list" where
  "allChanges originalCharacters modifiedCharacters =
     characterChanges originalCharacters modifiedCharacters
     @ deletedCharacters originalCharacters modifiedCharacters"

text \<open>
  The categories in which a character is placed: the types of the entries that hold it,
  as the original or as the modified character.
\<close>

definition categories :: "CharacterChange list \<Rightarrow> Character \<Rightarrow> changeType set" where
  "categories changes c =
     cc_type ` {e \<in> set changes. cc_original e = Some c \<or> cc_modified e = Some c}"

subsection \<open>Where the original characters come from\<close>

text \<open>
  The original list of a character-driven rewrite is the \<^verbatim>\<open>characters\<close> state of App,
  which is only ever set to the result of \<^verbatim>\<open>extractCharacters\<close> (directly or through a
  stored version). Its loop over the blocks is modelled with the pattern match on a
  block as a parameter \<open>nameMatch\<close>, giving the name and the description when the block
  matches; the ids are numbered by the index of the block.
\<close>

fun charactersFrom ::
    "(jsstring \<Rightarrow> (jsstring \<times> jsstring) option) \<Rightarrow> nat \<Rightarrow> jsstring list \<Rightarrow> Character list" where
  "charactersFrom nameMatch index [] = []"
| "charactersFrom nameMatch index (block # blocks) =
     (case nameMatch block of
        None \<Rightarrow> charactersFrom nameMatch (index + 1) blocks
      | Some (name, description) \<Rightarrow>
          \<lparr>c_id = ascii ''char-'' @ string_of_nat index,
           c_name = trim name,
           c_description = trim description,
           c_relationships = []\<rparr> # charactersFrom nameMatch (index + 1) blocks)"

subsection \<open>A sample edit\<close>

definition sampleCharacter :: "string \<Rightarrow> string \<Rightarrow> Character" where
  "sampleCharacter i n =
     \<lparr>c_id = ascii i, c_name = ascii n, c_description = [], c_relationships = []\<rparr>"

text \<open>Ann is renamed, Bob is removed and Cy is new.\<close>

definition sampleOriginals :: "Character list" where
  "sampleOriginals = [sampleCharacter ''char-0'' ''Ann'', sampleCharacter ''char-1'' ''Bob'']"

definition sampleModified :: "Character list" where
  "sampleModified = [sampleCharacter ''char-0'' ''Anna'', sampleCharacter ''17'' ''Cy'']"

section \<open>The service clients\<close>

subsection \<open>JSON values and the text of a reply\<close>

text \<open>
  A parsed JSON value; a number is kept as its literal. A JavaScript value that may be
  \<^verbatim>\<open>undefined\<close> is a \<open>json option\<close>, with \<open>None\<close> for \<^verbatim>\<open>undefined\<close>.
\<close>

datatype json =
    JNull
  | JBool bool
  | JNumber jsstring
  | JString jsstring
  | JArray "json list"
  | JObject "(jsstring \<times> json) list"

text \<open>
  \<^verbatim>\<open>v.key\<close> for a key that is no built-in property: a TypeError on \<^verbatim>\<open>undefined\<close>
  and \<^verbatim>\<open>null\<close>, the property of an object, \<^verbatim>\<open>undefined\<close> on everything else.
\<close>

fun getProp :: "jsstring \<Rightarrow> json option \<Rightarrow> error + json option" where
  "getProp k None = Inl TypeError"
| "getProp k (Some JNull) = Inl TypeError"
| "getProp k (Some (JObject kvs)) = Inr (map_of kvs k)"
| "getProp k (Some v) = Inr None"

text \<open>\<^verbatim>\<open>v[0]\<close>\<close>

fun getFirst :: "json option \<Rightarrow> error + json option" where
  "getFirst None = Inl TypeError"
| "getFirst (Some JNull) = Inl TypeError"
| "getFirst (Some (JArray [])) = Inr None"
| "getFirst (Some (JArray (x # xs))) = Inr (Some x)"
| "getFirst (Some (JObject kvs)) = Inr (map_of kvs (ascii ''0''))"
| "getFirst (Some (JString [])) = Inr None"
| "getFirst (Some (JString (c # cs))) = Inr (Some (JString [c]))"
| "getFirst (Some v) = Inr None"

text \<open>Sequencing of steps that may throw.\<close>

definition andThen :: "error + 'a \<Rightarrow> ('a \<Rightarrow> error + 'b) \<Rightarrow> error + 'b" where
  "andThen r f = (case r of Inl e \<Rightarrow> Inl e | Inr x \<Rightarrow> f x)"

text \<open>\<^verbatim>\<open>response.data.candidates[0].content.parts[0].text\<close>\<close>

definition candidateText :: "json \<Rightarrow> error + json option" where
  "candidateText data =
     andThen (getProp (ascii ''candidates'') (Some data)) (\<lambda>candidates.
     andThen (getFirst candidates) (\<lambda>candidate.
     andThen (getProp (ascii ''content'') candidate) (\<lambda>content.
     andThen (getProp (ascii ''parts'') content) (\<lambda>parts.
     andThen (getFirst parts) (\<lambda>part.
     getProp (ascii ''text'') part)))))"

subsection \<open>String.prototype.replace with a global pattern\<close>

text \<open>
  \<open>replaceAll m s\<close> scans \<open>s\<close> from the left. \<open>m\<close> tells whether the pattern matches at the
  head of a string and, if so, gives the replacement and the input after the match; the
  scan goes on there. Where there is no match the character is copied. Every pattern
  used below consumes at least one character; the test on the lengths states this for
  the termination proof and never fails.
\<close>

function replaceAll :: "(jsstring \<Rightarrow> (jsstring \<times> jsstring) option) \<Rightarrow> jsstring \<Rightarrow> jsstring" where
  "replaceAll m [] = []"
| "replaceAll m (c # cs) =
     (case m (c # cs) of
        None \<Rightarrow> c # replaceAll m cs
      | Some (out, rest) \<Rightarrow>
          (if length rest \<le> length cs then out @ replaceAll m rest
           else c # replaceAll m cs))"
  by pat_completeness auto
termination
  by (relation "measure (\<lambda>(m, s). length s)") auto

declare replaceAll.simps [simp del]


subsection \<open>convertToReadableText\<close>

text \<open>
  The body of the \<^verbatim>\<open>try\<close> block, given the outcome of the request (\<open>Inl\<close> when
  \<^verbatim>\<open>axios.post\<close> rejects, \<open>Inr\<close> the \<^verbatim>\<open>response.data\<close>): reading the text out of the
  response raises a TypeError when a part of the path is missing, and so does
  \<^verbatim>\<open>result.trim()\<close> when the result is no string.
\<close>

definition tryConvert :: "error + json \<Rightarrow> error + jsstring" where
  "tryConvert reply =
     andThen reply (\<lambda>data.
     andThen (candidateText data) (\<lambda>result.
       case result of
         Some (JString s) \<Rightarrow> Inr (trim s)
       | _ \<Rightarrow> Inl TypeError))"

text \<open>The whole function: the \<^verbatim>\<open>catch\<close> block returns the input text.\<close>

definition convertToReadableText :: "error + json \<Rightarrow> jsstring \<Rightarrow> error + jsstring" where
  "convertToReadableText reply t =
     (case tryConvert reply of
        Inl e \<Rightarrow> Inr t
      | Inr readable \<Rightarrow> Inr readable)"

subsection \<open>preprocessText and generateAudio\<close>

text \<open>
  The Japanese punctuation of the patterns: the ideographic comma U+3001 and full stop
  U+3002, the full-width exclamation mark U+FF01 and question mark U+FF1F.
\<close>

definition isPunct :: "jschar \<Rightarrow> bool" where
  "isPunct c = (c = 0x3001 \<or> c = 0x3002 \<or> c = 0xFF01 \<or> c = 0xFF1F)"

text \<open>\<^verbatim>\<open>/\n+/g\<close>, replaced by a full stop.\<close>

definition lineFeeds :: "jsstring \<Rightarrow> (jsstring \<times> jsstring) option" where
  "lineFeeds s =
     (case s of
        [] \<Rightarrow> None
      | c # cs \<Rightarrow> if c = 10 then Some ([0x3002], dropWhile (\<lambda>x. x = 10) cs) else None)"

text \<open>
  A character other than the punctuation, then white space up to the end of the text;
  replaced by the character and a full stop.
\<close>

definition openEnd :: "jsstring \<Rightarrow> (jsstring \<times> jsstring) option" where
  "openEnd s =
     (case s of
        [] \<Rightarrow> None
      | c # cs \<Rightarrow> if \<not> isPunct c \<and> list_all isSpace cs then Some ([c, 0x3002], []) else None)"

text \<open>A run of punctuation, replaced by its first character.\<close>

definition punctRun :: "jsstring \<Rightarrow> (jsstring \<times> jsstring) option" where
  "punctRun s =
     (case s of
        [] \<Rightarrow> None
      | c # cs \<Rightarrow> if isPunct c then Some ([c], dropWhile isPunct cs) else None)"

text \<open>A punctuation character and the white space after it, replaced by the character.\<close>

definition punctSpace :: "jsstring \<Rightarrow> (jsstring \<times> jsstring) option" where
  "punctSpace s =
     (case s of
        c # d # cs \<Rightarrow>
          if isPunct c \<and> isSpace d then Some ([c], dropWhile isSpace cs) else None
      | _ \<Rightarrow> None)"

text \<open>\<^verbatim>\<open>/\s+/g\<close>, replaced by a comma.\<close>

definition spaceRun :: "jsstring \<Rightarrow> (jsstring \<times> jsstring) option" where
  "spaceRun s =
     (case s of
        [] \<Rightarrow> None
      | c # cs \<Rightarrow> if isSpace c then Some ([0x3001], dropWhile isSpace cs) else None)"

definition preprocessText :: "jsstring \<Rightarrow> jsstring" where
  "preprocessText t =
     replaceAll spaceRun
       (replaceAll punctSpace
          (replaceAll punctRun
             (replaceAll openEnd
                (replaceAll lineFeeds t))))"

text \<open>
  The speech service as \<^verbatim>\<open>fetch\<close> shows it. A request is rejected (\<open>Inl\<close>) or answered
  with the \<^verbatim>\<open>ok\<close> flag of the response and the outcome of reading its body.
\<close>

type_synonym arrayBuffer = "nat list"

record SpeechService =
  audioQuery :: "jsstring \<Rightarrow> nat \<Rightarrow> error + (bool \<times> (error + json))"
  synthesis :: "json \<Rightarrow> nat \<Rightarrow> error + (bool \<times> (error + arrayBuffer))"

text \<open>
  \<^verbatim>\<open>queryJson.speedScale = 0.7\<close>: the property is set on an object, in place if it is
  there; the assignment leaves an array as JSON sees it and raises on \<^verbatim>\<open>null\<close> and,
  in module code, on a primitive value.
\<close>

definition setProp :: "jsstring \<Rightarrow> json \<Rightarrow> (jsstring \<times> json) list \<Rightarrow> (jsstring \<times> json) list" where
  "setProp k v kvs =
     (if k \<in> set (map fst kvs) then map (\<lambda>(k', v'). if k' = k then (k', v) else (k', v')) kvs
      else kvs @ [(k, v)])"

fun setSpeedScale :: "json \<Rightarrow> error + json" where
  "setSpeedScale (JObject kvs) =
     Inr (JObject (setProp (ascii ''speedScale'') (JNumber (ascii ''0.7'')) kvs))"
| "setSpeedScale (JArray xs) = Inr (JArray xs)"
| "setSpeedScale v = Inl TypeError"

text \<open>The statements of \<^verbatim>\<open>generateAudio\<close> after the text has been preprocessed.\<close>

definition synthesize :: "SpeechService \<Rightarrow> jsstring \<Rightarrow> nat \<Rightarrow> error + arrayBuffer" where
  "synthesize service processedText speakerId =
     andThen (audioQuery service processedText speakerId) (\<lambda>(ok, body).
       if \<not> ok then Inl AudioQueryFailed
       else andThen body (\<lambda>queryJson.
         andThen (if speakerId = 13 then setSpeedScale queryJson else Inr queryJson) (\<lambda>q.
         andThen (synthesis service q speakerId) (\<lambda>(ok', buffer).
           if \<not> ok' then Inl SynthesisFailed else buffer))))"

text \<open>
  \<^verbatim>\<open>generateAudio\<close>; \<open>reply\<close> is the outcome of the request that
  \<^verbatim>\<open>convertToReadableText\<close> makes. The \<^verbatim>\<open>catch\<close> block rethrows.
\<close>

definition generateAudio ::
    "SpeechService \<Rightarrow> error + json \<Rightarrow> jsstring \<Rightarrow> nat \<Rightarrow> error + arrayBuffer" where
  "generateAudio service reply t speakerId =
     andThen (convertToReadableText reply t) (\<lambda>readableText.
       synthesize service (preprocessText readableText) speakerId)"

subsection \<open>analyzeFlowchartRelationship\<close>











subsection \<open>Sample replies\<close>







definition echoService :: SpeechService where
  "echoService =
     \<lparr>audioQuery = (\<lambda>t speaker. Inr (True, Inr (JString t))),
      synthesis = (\<lambda>q speaker. Inr (True, Inr (case q of JString t \<Rightarrow> t | _ \<Rightarrow> [])))\<rparr>"

section \<open>Audio playback\<close>

subsection \<open>The class AudioPlayer\<close>

text \<open>
  Times are JavaScript numbers (seconds); only assignments, differences and comparisons
  of them occur, and they are modelled as reals. \<open>now\<close> is
  \<^verbatim>\<open>audioContext.currentTime\<close> at the call. A decoded buffer is kept with the data it
  was decoded from and its duration. The source node is absent, started or stopped.
\<close>

record AudioBuffer =
  samples :: arrayBuffer
  duration :: real

datatype SourceNode = Started | Stopped

record AudioPlayer =
  audioContext :: bool
  audioBuffer :: "AudioBuffer option"
  sourceNode :: "SourceNode option"
  startTime :: real
  offset :: real
  isPlaying :: bool

definition newAudioPlayer :: AudioPlayer where
  "newAudioPlayer =
     \<lparr>audioContext = False, audioBuffer = None, sourceNode = None, startTime = 0,
      offset = 0, isPlaying = False\<rparr>"

text \<open>\<^verbatim>\<open>sourceNode.stop(); sourceNode.disconnect()\<close> under \<^verbatim>\<open>if (this.sourceNode)\<close>.\<close>

definition stopSource :: "AudioPlayer \<Rightarrow> AudioPlayer" where
  "stopSource p = p\<lparr>sourceNode := map_option (\<lambda>n. Stopped) (sourceNode p)\<rparr>"

text \<open>
  \<^verbatim>\<open>loadAudio\<close>; \<open>decode\<close> stands for \<^verbatim>\<open>decodeAudioData\<close>. The context is created
  before the decoding, so it stays when the decoding fails.
\<close>

definition loadAudio ::
    "(arrayBuffer \<Rightarrow> error + AudioBuffer) \<Rightarrow> arrayBuffer \<Rightarrow> AudioPlayer
      \<Rightarrow> error option \<times> AudioPlayer" where
  "loadAudio decode audioData p =
     (let p1 = p\<lparr>audioContext := True\<rparr>
      in case decode audioData of
           Inl e \<Rightarrow> (Some e, p1)
         | Inr buffer \<Rightarrow> (None, p1\<lparr>audioBuffer := Some buffer, offset := 0\<rparr>))"

definition play :: "real \<Rightarrow> AudioPlayer \<Rightarrow> AudioPlayer" where
  "play now p =
     (if \<not> audioContext p \<or> audioBuffer p = None then p
      else (stopSource p)\<lparr>sourceNode := Some Started,
                           startTime := now - offset p,
                           isPlaying := True\<rparr>)"

definition getCurrentTime :: "real \<Rightarrow> AudioPlayer \<Rightarrow> real" where
  "getCurrentTime now p =
     (if \<not> audioContext p \<or> \<not> isPlaying p then offset p else now - startTime p)"

definition getDuration :: "AudioPlayer \<Rightarrow> real" where
  "getDuration p = (case audioBuffer p of None \<Rightarrow> 0 | Some b \<Rightarrow> duration b)"

text \<open>The handler \<^verbatim>\<open>onended\<close> that \<^verbatim>\<open>play\<close> installs on the source.\<close>

definition onended :: "real \<Rightarrow> AudioPlayer \<Rightarrow> AudioPlayer" where
  "onended now p =
     (if getCurrentTime now p \<ge> getDuration p then p\<lparr>isPlaying := False, offset := 0\<rparr>
      else p)"

definition pause :: "real \<Rightarrow> AudioPlayer \<Rightarrow> AudioPlayer" where
  "pause now p =
     (if \<not> isPlaying p then p
      else (stopSource (p\<lparr>offset := getCurrentTime now p\<rparr>))\<lparr>isPlaying := False\<rparr>)"


definition reset :: "AudioPlayer \<Rightarrow> AudioPlayer" where
  "reset p = (stopSource p)\<lparr>isPlaying := False, offset := 0\<rparr>"

subsection \<open>TextEditor: the audio states of the versions\<close>

datatype playState = initial | playing | paused

text \<open>
  The interface \<^verbatim>\<open>AudioState\<close>; \<open>playState\<close> is its property \<^verbatim>\<open>state\<close>. The player
  is an object that the handlers mutate in place; every handler stores the state that
  holds it back into the table afterwards, so the table is modelled with the player as
  part of the entry.
\<close>

record AudioState =
  audioPlayer :: AudioPlayer
  playState :: playState
  isGenerating :: bool

type_synonym AudioStates = "jsstring \<rightharpoonup> AudioState"

definition MAX_TEXT_LENGTH :: nat where
  "MAX_TEXT_LENGTH = 500"

text \<open>A number in a template literal: a minus sign in front of a negative integer.\<close>

definition string_of_int :: "int \<Rightarrow> jsstring" where
  "string_of_int i = (if i < 0 then 45 # string_of_nat (nat (- i)) else string_of_nat (nat i))"

text \<open>The key \<^verbatim>\<open>`v${versionIndex + 1}`\<close> under which the state of a tab is kept.\<close>

definition versionKey :: "int \<Rightarrow> jsstring" where
  "versionKey versionIndex = ascii ''v'' @ string_of_int (versionIndex + 1)"

text \<open>
  \<^verbatim>\<open>getCurrentAudioState\<close>: the state of the tab, and the table with the new state
  that is stored when there was none.
\<close>

definition getCurrentAudioState :: "int \<Rightarrow> AudioStates \<Rightarrow> AudioState \<times> AudioStates" where
  "getCurrentAudioState versionIndex audioStates =
     (case audioStates (versionKey versionIndex) of
        None \<Rightarrow>
          (let newState = \<lparr>audioPlayer = newAudioPlayer, playState = initial,
                            isGenerating = False\<rparr>
           in (newState, audioStates(versionKey versionIndex \<mapsto> newState)))
      | Some s \<Rightarrow> (s, audioStates))"

text \<open>
  The effect that runs when the tab changes. \<open>previousVersionIndex\<close> is the value of the
  ref; the result is the table and the new value of the ref. \<open>ids\<close> are the ids of the
  \<^verbatim>\<open>versions\<close> prop.
\<close>

definition versionSwitchEffect ::
    "jsstring list \<Rightarrow> int \<Rightarrow> int \<Rightarrow> AudioStates \<Rightarrow> AudioStates \<times> int" where
  "versionSwitchEffect ids previousVersionIndex versionIndex audioStates =
     (if previousVersionIndex \<noteq> versionIndex
      then
        (let prevVersion = versionKey previousVersionIndex
         in if \<not> list_ex (\<lambda>i. i = prevVersion) ids
            then (audioStates(prevVersion := None), versionIndex)
            else (case audioStates prevVersion of
                    None \<Rightarrow> (audioStates, versionIndex)
                  | Some s \<Rightarrow>
                      (audioStates(prevVersion \<mapsto>
                         s\<lparr>audioPlayer := reset (audioPlayer s), playState := initial\<rparr>),
                       versionIndex)))
      else (audioStates, previousVersionIndex))"

definition isAudioEnabled :: "jsstring \<Rightarrow> bool" where
  "isAudioEnabled t = (length t > 0 \<and> length t \<le> MAX_TEXT_LENGTH)"

text \<open>
  What \<^verbatim>\<open>handlePlayAudio\<close> does to the outside, in order: a call of
  \<^verbatim>\<open>generateAudio\<close> with its text and speaker, and the calls of the player.
\<close>

datatype action = Generate jsstring nat | Load | Play | Pause

text \<open>
  \<^verbatim>\<open>handlePlayAudio\<close>. \<open>generate\<close> stands for \<^verbatim>\<open>generateAudio\<close> with its services
  and \<open>decode\<close> for the decoder; the result is the list of actions and the table.
\<close>

definition handlePlayAudio ::
    "(jsstring \<Rightarrow> nat \<Rightarrow> error + arrayBuffer) \<Rightarrow> (arrayBuffer \<Rightarrow> error + AudioBuffer) \<Rightarrow> real
      \<Rightarrow> jsstring \<Rightarrow> int \<Rightarrow> AudioStates \<Rightarrow> action list \<times> AudioStates" where
  "handlePlayAudio generate decode now t versionIndex audioStates =
     (if \<not> isAudioEnabled t then ([], audioStates)
      else
        (let (currentAudioState, states) = getCurrentAudioState versionIndex audioStates;
             currentVersion = versionKey versionIndex;
             player = audioPlayer currentAudioState
         in if playState currentAudioState = playing
            then ([Pause],
                  states(currentVersion \<mapsto>
                    currentAudioState\<lparr>audioPlayer := pause now player, playState := paused\<rparr>))
            else if t = [] then ([], states)
            else if getDuration player = 0
            then
              (let speakerId = (if versionIndex = 0 then 13 else 1)
               in case generate t speakerId of
                    Inl e \<Rightarrow>
                      ([Generate t speakerId],
                       states(currentVersion \<mapsto>
                         currentAudioState\<lparr>isGenerating := False, playState := initial\<rparr>))
                  | Inr audioData \<Rightarrow>
                      (case loadAudio decode audioData player of
                         (Some e, loaded) \<Rightarrow>
                           ([Generate t speakerId, Load],
                            states(currentVersion \<mapsto>
                              currentAudioState\<lparr>audioPlayer := loaded, isGenerating := False,
                                                 playState := initial\<rparr>))
                       | (None, loaded) \<Rightarrow>
                           ([Generate t speakerId, Load, Play],
                            states(currentVersion \<mapsto>
                              currentAudioState\<lparr>audioPlayer := play now loaded,
                                                 playState := playing\<rparr>))))
            else ([Play],
                  states(currentVersion \<mapsto>
                    currentAudioState\<lparr>audioPlayer := play now player, playState := playing\<rparr>))))"

text \<open>
  The effect on a change of the text: the player of the current tab is reset.
\<close>

definition textChangedEffect :: "int \<Rightarrow> AudioStates \<Rightarrow> AudioStates" where
  "textChangedEffect versionIndex audioStates =
     (case audioStates (versionKey versionIndex) of
        None \<Rightarrow> audioStates
      | Some s \<Rightarrow>
          audioStates(versionKey versionIndex \<mapsto>
            s\<lparr>audioPlayer := reset (audioPlayer s), playState := initial\<rparr>))"

subsection \<open>A sample: the first tab paused at five seconds\<close>

definition sampleBuffer :: AudioBuffer where
  "sampleBuffer = \<lparr>samples = [1, 2, 3], duration = 10\<rparr>"

definition pausedPlayer :: AudioPlayer where
  "pausedPlayer =
     \<lparr>audioContext = True, audioBuffer = Some sampleBuffer, sourceNode = Some Stopped,
      startTime = 0, offset = 5, isPlaying = False\<rparr>"

definition pausedStates :: AudioStates where
  "pausedStates =
     [ascii ''v1'' \<mapsto> \<lparr>audioPlayer = pausedPlayer, playState = paused, isGenerating = False\<rparr>]"

text \<open>
  A text of 501 characters; a generator and a decoder that succeed; the table in which
  the second tab has the paused state as well.
\<close>

definition longText :: jsstring where
  "longText = replicate 501 97"

definition sampleGenerate :: "jsstring \<Rightarrow> nat \<Rightarrow> error + arrayBuffer" where
  "sampleGenerate t speakerId = Inr (speakerId # t)"

definition sampleDecode :: "arrayBuffer \<Rightarrow> error + AudioBuffer" where
  "sampleDecode audioData = Inr \<lparr>samples = audioData, duration = 10\<rparr>"

definition twoPaused :: AudioStates where
  "twoPaused =
     pausedStates(ascii ''v2'' \<mapsto>
       \<lparr>audioPlayer = pausedPlayer, playState = paused, isGenerating = False\<rparr>)"

subsection \<open>Ids and positions\<close>

text \<open>
  \<^verbatim>\<open>createNewVersion\<close> gives the version it appends the id \<^verbatim>\<open>`v${versions.length + 1}`\<close>,
  and the audio state of a tab is kept under \<^verbatim>\<open>`v${versionIndex + 1}`\<close>: the two agree
  on a list of \<open>n\<close> versions when its ids are \<open>positionIds n\<close>. An event shifts the
  versions when it deletes one that is neither the first nor the last: the versions
  after it move to the position before, with their ids unchanged.
\<close>

definition positionIds :: "nat \<Rightarrow> jsstring list" where
  "positionIds n = map (\<lambda>i. versionKey (int i)) [0..<n]"

fun shifting :: "App \<Rightarrow> event \<Rightarrow> bool" where
  "shifting s (VersionDelete d) = (0 < d \<and> d + 1 < int (length (versions s)))"
| "shifting s _ = False"

fun noShifting :: "event list \<Rightarrow> App \<Rightarrow> bool" where
  "noShifting [] s = True"
| "noShifting (e # es) s = (\<not> shifting s e \<and> noShifting es (step e s))"

section \<open>Proofs: the Version Store\<close>

lemma removeAt_enum:
  "map snd (filter (\<lambda>(k, x). int k \<noteq> i) (enumerate n xs)) =
     (if int n \<le> i \<and> i < int n + int (length xs)
      then take (nat i - n) xs @ drop (Suc (nat i - n)) xs else xs)"
proof (induction xs arbitrary: n)
  case Nil
  then show ?case by simp
next
  case (Cons x xs)
  show ?case
  proof (cases "int n = i")
    case True
    then show ?thesis using Cons.IH [of "Suc n"] by auto
  next
    case False
    have "int n < i \<Longrightarrow> nat i - n = Suc (nat i - Suc n)" by linarith
    with False show ?thesis using Cons.IH [of "Suc n"]
      by auto
  qed
qed

lemma removeAt_in: "0 \<le> i \<Longrightarrow> i < int (length xs) \<Longrightarrow>
   removeAt i xs = take (nat i) xs @ drop (Suc (nat i)) xs"
  unfolding removeAt_def by (simp add: removeAt_enum)

lemma removeAt_out: "\<not> (0 \<le> i \<and> i < int (length xs)) \<Longrightarrow> removeAt i xs = xs"
  unfolding removeAt_def by (auto simp add: removeAt_enum)

lemma removeAt_length: "0 \<le> i \<Longrightarrow> i < int (length xs) \<Longrightarrow>
   int (length (removeAt i xs)) = int (length xs) - 1"
  by (simp add: removeAt_in)

lemma removeAt_Cons: "0 < i \<Longrightarrow> removeAt i (x # xs) = x # removeAt (i - 1) xs"
proof (cases "i < int (length (x # xs))")
  case True
  assume "0 < i"
  then obtain k where k: "nat i = Suc k" by (cases "nat i") auto
  with \<open>0 < i\<close> have k2: "nat (i - 1) = k" by linarith
  from True \<open>0 < i\<close> show ?thesis
    by (simp add: removeAt_in k k2)
next
  case False
  assume "0 < i"
  with False show ?thesis by (simp add: removeAt_out)
qed

lemma set_removeAt: "set (removeAt i xs) \<subseteq> set xs"
  unfolding removeAt_def by (auto simp: in_set_enumerate_eq)

lemma rootFirst_snoc:
  "vs \<noteq> [] \<Longrightarrow> rootFirst vs \<Longrightarrow> parentVersionId v \<noteq> None \<Longrightarrow> rootFirst (vs @ [v])"
  by (cases vs) (simp_all add: rootFirst_def)

lemma rootFirst_update:
  "rootFirst vs \<Longrightarrow> k < length vs \<Longrightarrow> parentVersionId v = parentVersionId (vs ! k) \<Longrightarrow>
     rootFirst (vs[k := v])"
proof (cases vs)
  case Nil
  then show ?thesis by (simp add: rootFirst_def)
next
  case (Cons r cs)
  assume a: "rootFirst vs" "k < length vs" "parentVersionId v = parentVersionId (vs ! k)"
  show ?thesis
  proof (cases k)
    case 0
    with a Cons show ?thesis by (simp add: rootFirst_def)
  next
    case (Suc m)
    with a Cons have "parentVersionId v \<noteq> None"
      by (simp add: rootFirst_def list_all_length)
    with a Cons Suc show ?thesis
      by (auto simp: rootFirst_def list_all_iff dest!: set_update_subset_insert [THEN subsetD])
  qed
qed

lemma rootFirst_removeAt: "rootFirst vs \<Longrightarrow> 0 < i \<Longrightarrow> rootFirst (removeAt i vs)"
proof (cases vs)
  case Nil
  then show ?thesis by (simp add: removeAt_def rootFirst_def)
next
  case (Cons r cs)
  assume a: "rootFirst vs" "0 < i"
  have "set (removeAt (i - 1) cs) \<subseteq> set cs" by (rule set_removeAt)
  with a Cons show ?thesis
    by (auto simp: removeAt_Cons rootFirst_def list_all_iff)
qed

lemma inv_init: "storeInv initApp"
  by (simp add: storeInv_def initApp_def rootFirst_def activeValid_def compareValid_def)

lemma textChange_effect:
  "(versions (handleTextChange newText reply now s) = versions s
      \<and> currentVersionIndex (handleTextChange newText reply now s) = currentVersionIndex s
    \<or> versions s = []
      \<and> (\<exists>a. versions (handleTextChange newText reply now s) = [initialVersion newText a now])
      \<and> currentVersionIndex (handleTextChange newText reply now s) = 0)
   \<and> isCompareMode (handleTextChange newText reply now s) = isCompareMode s
   \<and> compareVersionIndex (handleTextChange newText reply now s) = compareVersionIndex s"
proof (cases "length newText < 50")
  case True
  then show ?thesis by (simp add: handleTextChange_def)
next
  case long: False
  show ?thesis
  proof (cases reply)
    case (Inl e)
    with long show ?thesis by (simp add: handleTextChange_def)
  next
    case (Inr a)
    show ?thesis
    proof (cases "versions s = []")
      case True
      with long Inr show ?thesis
        by (cases "g_flowchart a") (auto simp add: handleTextChange_def)
    next
      case False
      with long Inr show ?thesis
        by (cases "g_flowchart a") (simp_all add: handleTextChange_def)
    qed
  qed
qed

lemma inv_textChange:
  assumes "storeInv s"
  shows "storeInv (handleTextChange newText reply now s)"
proof -
  let ?s' = "handleTextChange newText reply now s"
  from textChange_effect [of newText reply now s]
  have cm: "isCompareMode ?s' = isCompareMode s" "compareVersionIndex ?s' = compareVersionIndex s"
    and vs: "versions ?s' = versions s \<and> currentVersionIndex ?s' = currentVersionIndex s
       \<or> versions s = [] \<and> (\<exists>a. versions ?s' = [initialVersion newText a now])
          \<and> currentVersionIndex ?s' = 0"
    by simp_all
  from vs show ?thesis
  proof
    assume "versions ?s' = versions s \<and> currentVersionIndex ?s' = currentVersionIndex s"
    with assms cm show ?thesis
      by (simp add: storeInv_def activeValid_def compareValid_def)
  next
    assume a: "versions s = [] \<and> (\<exists>a. versions ?s' = [initialVersion newText a now])
          \<and> currentVersionIndex ?s' = 0"
    then obtain an where an: "versions ?s' = [initialVersion newText an now]" by blast
    from a assms have "compareVersionIndex s = None" "\<not> isCompareMode s"
      by (auto simp: storeInv_def compareValid_def indexValid_def)
    with a an cm show ?thesis
      by (simp add: storeInv_def activeValid_def compareValid_def rootFirst_def
          initialVersion_def indexValid_def)
  qed
qed

lemma rewrite_effect:
  "handleRewrite d rw r1 r2 now s = s
   \<or> (\<exists>v cur. nth_opt (versions s) (currentVersionIndex s) = Some cur
        \<and> parentVersionId v = Some (sv_id cur)
        \<and> sv_id v = ascii ''v'' @ string_of_nat (length (versions s) + 1)
        \<and> versions (handleRewrite d rw r1 r2 now s) = versions s @ [v]
        \<and> currentVersionIndex (handleRewrite d rw r1 r2 now s) = int (length (versions s))
        \<and> isCompareMode (handleRewrite d rw r1 r2 now s) = isCompareMode s
        \<and> compareVersionIndex (handleRewrite d rw r1 r2 now s) = compareVersionIndex s)"
proof (cases rw)
  case (Inl e)
  then show ?thesis by (simp add: handleRewrite_def)
next
  case rw: (Inr newText)
  show ?thesis
  proof (cases r1)
    case (Inl e)
    with rw show ?thesis by (simp add: handleRewrite_def commitRewrite_def)
  next
    case r1: (Inr a)
    show ?thesis
    proof (cases "nth_opt (versions s) (currentVersionIndex s)")
      case None
      with rw r1 show ?thesis by (simp add: handleRewrite_def commitRewrite_def)
    next
      case cur: (Some cur)
      show ?thesis
      proof (cases r2)
        case (Inl e)
        with rw r1 cur show ?thesis
          by (simp add: handleRewrite_def commitRewrite_def createNewVersion_def)
      next
        case r2: (Inr a2)
        let ?v = "\<lparr>sv_id = ascii ''v'' @ string_of_nat (length (versions s) + 1),
               sv_name = versionNamePrefix @ string_of_nat (length (versions s) + 1),
               sv_text = newText,
               sv_flowchartData = g_flowchart a2,
               sv_characters = g_characters a2,
               sv_plot = g_plot a2,
               sv_timestamp = now,
               sv_description = d,
               parentVersionId = Some (sv_id cur)\<rparr>"
        have "handleRewrite d rw r1 r2 now s = s\<lparr>versions := versions s @ [?v],
                           currentVersionIndex := int (length (versions s)),
                           app_text := newText,
                           flowchartData := g_flowchart a,
                           characters := g_characters a\<rparr>"
          using rw r1 cur r2
          by (simp add: handleRewrite_def commitRewrite_def createNewVersion_def)
        then have "nth_opt (versions s) (currentVersionIndex s) = Some cur
        \<and> parentVersionId ?v = Some (sv_id cur)
        \<and> sv_id ?v = ascii ''v'' @ string_of_nat (length (versions s) + 1)
        \<and> versions (handleRewrite d rw r1 r2 now s) = versions s @ [?v]
        \<and> currentVersionIndex (handleRewrite d rw r1 r2 now s) = int (length (versions s))
        \<and> isCompareMode (handleRewrite d rw r1 r2 now s) = isCompareMode s
        \<and> compareVersionIndex (handleRewrite d rw r1 r2 now s) = compareVersionIndex s"
          using cur by simp
        then show ?thesis by blast
      qed
    qed
  qed
qed

lemma inv_rewrite:
  assumes "storeInv s"
  shows "storeInv (handleRewrite d rw r1 r2 now s)"
proof -
  let ?s' = "handleRewrite d rw r1 r2 now s"
  from rewrite_effect [of d rw r1 r2 now s] show ?thesis
  proof
    assume "?s' = s"
    with assms show ?thesis by simp
  next
    assume "\<exists>v cur. nth_opt (versions s) (currentVersionIndex s) = Some cur
        \<and> parentVersionId v = Some (sv_id cur)
        \<and> sv_id v = ascii ''v'' @ string_of_nat (length (versions s) + 1)
        \<and> versions ?s' = versions s @ [v]
        \<and> currentVersionIndex ?s' = int (length (versions s))
        \<and> isCompareMode ?s' = isCompareMode s
        \<and> compareVersionIndex ?s' = compareVersionIndex s"
    then obtain v cur where cur: "nth_opt (versions s) (currentVersionIndex s) = Some cur"
      and v: "parentVersionId v = Some (sv_id cur)"
      and e: "versions ?s' = versions s @ [v]" "currentVersionIndex ?s' = int (length (versions s))"
        "isCompareMode ?s' = isCompareMode s" "compareVersionIndex ?s' = compareVersionIndex s"
      by blast
    from cur have ne: "versions s \<noteq> []" by (auto simp: nth_opt_def split: if_splits)
    with assms v have "rootFirst (versions s @ [v])"
      by (simp add: storeInv_def rootFirst_snoc)
    with assms e ne show ?thesis
      by (auto simp: storeInv_def activeValid_def compareValid_def indexValid_def)
  qed
qed

lemma reanalyze_effect:
  "handleReanalyze reply now s = s
   \<or> (\<exists>v cur. nth_opt (versions s) (currentVersionIndex s) = Some cur
        \<and> parentVersionId v = parentVersionId cur \<and> sv_id v = sv_id cur
        \<and> versions (handleReanalyze reply now s) = (versions s)[nat (currentVersionIndex s) := v]
        \<and> currentVersionIndex (handleReanalyze reply now s) = currentVersionIndex s
        \<and> isCompareMode (handleReanalyze reply now s) = isCompareMode s
        \<and> compareVersionIndex (handleReanalyze reply now s) = compareVersionIndex s)"
proof (cases reply)
  case (Inl e)
  then show ?thesis by (simp add: handleReanalyze_def)
next
  case r: (Inr a)
  show ?thesis
  proof (cases "nth_opt (versions s) (currentVersionIndex s)")
    case None
    with r show ?thesis by (simp add: handleReanalyze_def)
  next
    case cur: (Some cur)
    let ?v = "cur\<lparr>sv_flowchartData := g_flowchart a,
                                         sv_characters := g_characters a,
                                         sv_plot := g_plot a,
                                         sv_timestamp := now,
                                         sv_description := sv_description cur\<rparr>"
    have "versions (handleReanalyze reply now s) = (versions s)[nat (currentVersionIndex s) := ?v]
        \<and> currentVersionIndex (handleReanalyze reply now s) = currentVersionIndex s
        \<and> isCompareMode (handleReanalyze reply now s) = isCompareMode s
        \<and> compareVersionIndex (handleReanalyze reply now s) = compareVersionIndex s"
      using r cur by (cases "g_flowchart a") (simp_all add: handleReanalyze_def Let_def)
    then have "nth_opt (versions s) (currentVersionIndex s) = Some cur
        \<and> parentVersionId ?v = parentVersionId cur \<and> sv_id ?v = sv_id cur
        \<and> versions (handleReanalyze reply now s) = (versions s)[nat (currentVersionIndex s) := ?v]
        \<and> currentVersionIndex (handleReanalyze reply now s) = currentVersionIndex s
        \<and> isCompareMode (handleReanalyze reply now s) = isCompareMode s
        \<and> compareVersionIndex (handleReanalyze reply now s) = compareVersionIndex s"
      using cur by simp
    then show ?thesis by blast
  qed
qed

lemma inv_reanalyze:
  assumes "storeInv s"
  shows "storeInv (handleReanalyze reply now s)"
proof -
  let ?s' = "handleReanalyze reply now s"
  from reanalyze_effect [of reply now s] show ?thesis
  proof
    assume "?s' = s"
    with assms show ?thesis by simp
  next
    assume "\<exists>v cur. nth_opt (versions s) (currentVersionIndex s) = Some cur
        \<and> parentVersionId v = parentVersionId cur \<and> sv_id v = sv_id cur
        \<and> versions ?s' = (versions s)[nat (currentVersionIndex s) := v]
        \<and> currentVersionIndex ?s' = currentVersionIndex s
        \<and> isCompareMode ?s' = isCompareMode s
        \<and> compareVersionIndex ?s' = compareVersionIndex s"
    then obtain v cur where cur: "nth_opt (versions s) (currentVersionIndex s) = Some cur"
      and v: "parentVersionId v = parentVersionId cur"
      and e: "versions ?s' = (versions s)[nat (currentVersionIndex s) := v]"
       "currentVersionIndex ?s' = currentVersionIndex s"
        "isCompareMode ?s' = isCompareMode s" "compareVersionIndex ?s' = compareVersionIndex s"
      by blast
    from cur have k: "nat (currentVersionIndex s) < length (versions s)"
       "cur = versions s ! nat (currentVersionIndex s)"
      by (auto simp: nth_opt_def split: if_splits)
    with assms v have "rootFirst ((versions s)[nat (currentVersionIndex s) := v])"
      by (simp add: storeInv_def rootFirst_update)
    with assms e show ?thesis
      by (auto simp: storeInv_def activeValid_def compareValid_def indexValid_def)
  qed
qed

lemma versionChange_effect:
  "versions (snd (versionChange vs i s)) = versions s
   \<and> currentVersionIndex (snd (versionChange vs i s)) = i
   \<and> isCompareMode (snd (versionChange vs i s)) = isCompareMode s
   \<and> compareVersionIndex (snd (versionChange vs i s)) = compareVersionIndex s
   \<and> (fst (versionChange vs i s) = None \<longleftrightarrow> nth_opt vs i \<noteq> None)"
  by (cases "nth_opt vs i") (simp_all add: versionChange_def)

lemma inv_versionChange:
  assumes "storeInv s" "inRange s i"
  shows "storeInv (snd (handleVersionChange i s))"
  using assms versionChange_effect [of "versions s" i s]
  by (auto simp: handleVersionChange_def storeInv_def activeValid_def compareValid_def
        inRange_def indexValid_def)

lemma inv_toggle:
  assumes "storeInv s" "length (versions s) > 1"
  shows "storeInv (toggleCompareMode s)"
  using assms
  by (auto simp: toggleCompareMode_def storeInv_def activeValid_def compareValid_def
        indexValid_def)

lemma inv_nameEditStart: "storeInv s \<Longrightarrow> storeInv (handleVersionNameEditStart i n s)"
  by (cases "i = 0")
     (simp_all add: handleVersionNameEditStart_def storeInv_def activeValid_def compareValid_def)

lemma inv_nameCancel: "storeInv s \<Longrightarrow> storeInv (handleVersionNameCancel s)"
  by (simp add: handleVersionNameCancel_def storeInv_def activeValid_def compareValid_def)

lemma inv_nameEdit:
  "storeInv s \<Longrightarrow> storeInv (s\<lparr>editVersionDialog := d\<rparr>)"
  by (simp add: storeInv_def activeValid_def compareValid_def)

lemma inv_nameSave:
  assumes "storeInv s"
  shows "storeInv (handleVersionNameSave s)"
proof (cases "editVersionDialog s")
  case None
  with assms show ?thesis by (simp add: handleVersionNameSave_def)
next
  case (Some d)
  obtain i name where d: "d = (i, name)" by (cases d)
  let ?v = "(versions s ! nat i)\<lparr>sv_name := name\<rparr>"
  have s': "handleVersionNameSave s = s\<lparr>versions := (versions s)[nat i := ?v], editVersionDialog := None\<rparr>"
    using Some d by (simp add: handleVersionNameSave_def)
  have "rootFirst ((versions s)[nat i := ?v])"
  proof (cases "nat i < length (versions s)")
    case True
    with assms show ?thesis by (simp add: storeInv_def rootFirst_update)
  next
    case False
    with assms show ?thesis by (simp add: storeInv_def list_update_beyond)
  qed
  with assms show ?thesis unfolding s'
    by (simp add: storeInv_def activeValid_def compareValid_def indexValid_def)
qed

text \<open>The effect of a deletion at an index of the list other than 0.\<close>

lemma delete_effect:
  assumes d: "0 < d" "d < int (length (versions s))"
    and cur: "indexValid (versions s) (currentVersionIndex s)"
  shows "fst (handleVersionDelete d s) = None"
    and "versions (snd (handleVersionDelete d s)) = removeAt d (versions s)"
    and "currentVersionIndex (snd (handleVersionDelete d s)) =
           (if currentVersionIndex s \<ge> d then currentVersionIndex s - 1 else currentVersionIndex s)"
    and "compareVersionIndex (snd (handleVersionDelete d s)) =
           (case compareVersionIndex s of
              None \<Rightarrow> None
            | Some c \<Rightarrow> if isCompareMode s \<and> c = d then None
                        else if c > d then Some (c - 1) else Some c)"
    and "isCompareMode (snd (handleVersionDelete d s)) =
           (isCompareMode s \<and> compareVersionIndex s \<noteq> Some d)"
proof -
  have n: "nth_opt (versions s) (d - 1) \<noteq> None"
    using d by (simp add: nth_opt_def)
  then obtain v where v: "nth_opt (versions s) (d - 1) = Some v" by blast
  show "fst (handleVersionDelete d s) = None"
    using d v
    by (cases "compareVersionIndex s")
       (simp_all add: handleVersionDelete_def Let_def versionChange_def split_def)
  show "versions (snd (handleVersionDelete d s)) = removeAt d (versions s)"
    using d v
    by (cases "compareVersionIndex s")
       (simp_all add: handleVersionDelete_def Let_def versionChange_def split_def)
  show "currentVersionIndex (snd (handleVersionDelete d s)) =
           (if currentVersionIndex s \<ge> d then currentVersionIndex s - 1 else currentVersionIndex s)"
    using d v
    by (cases "compareVersionIndex s")
       (auto simp add: handleVersionDelete_def Let_def versionChange_def split_def)
  show "compareVersionIndex (snd (handleVersionDelete d s)) =
           (case compareVersionIndex s of
              None \<Rightarrow> None
            | Some c \<Rightarrow> if isCompareMode s \<and> c = d then None
                        else if c > d then Some (c - 1) else Some c)"
    using d v
    by (cases "compareVersionIndex s")
       (auto simp add: handleVersionDelete_def Let_def versionChange_def split_def)
  show "isCompareMode (snd (handleVersionDelete d s)) =
           (isCompareMode s \<and> compareVersionIndex s \<noteq> Some d)"
    using d v
    by (cases "compareVersionIndex s")
       (auto simp add: handleVersionDelete_def Let_def versionChange_def split_def)
qed

lemma inv_delete:
  assumes "storeInv s" "inRange s d"
  shows "storeInv (snd (handleVersionDelete d s))"
proof (cases "d = 0")
  case True
  with assms show ?thesis by (simp add: handleVersionDelete_def)
next
  case False
  with assms have d: "0 < d" "d < int (length (versions s))" by (auto simp: inRange_def)
  then have ne: "versions s \<noteq> []" by auto
  with assms have cur: "indexValid (versions s) (currentVersionIndex s)"
    by (simp add: storeInv_def activeValid_def)
  note e = delete_effect [OF d cur]
  have len: "int (length (removeAt d (versions s))) = int (length (versions s)) - 1"
    using d by (simp add: removeAt_length)
  have rf: "rootFirst (removeAt d (versions s))"
    using assms d by (simp add: storeInv_def rootFirst_removeAt)
  have av: "activeValid (snd (handleVersionDelete d s))"
    using cur d len by (auto simp: activeValid_def e indexValid_def)
  have cv: "compareValid (snd (handleVersionDelete d s))"
    using assms(1) d len
    by (auto simp: compareValid_def storeInv_def e indexValid_def split: option.splits)
  from rf av cv show ?thesis by (simp add: storeInv_def e)
qed

lemma inv_fire: "storeInv s \<Longrightarrow> enabled s e \<Longrightarrow> storeInv (fire e s)"
proof (cases e)
  case (NameEditStart i)
  assume "storeInv s" "enabled s e"
  with NameEditStart show ?thesis
    by (cases "nth_opt (versions s) i") (simp_all add: inv_nameEditStart)
qed (simp_all add: inv_textChange inv_rewrite inv_reanalyze inv_versionChange inv_delete
       inv_toggle inv_nameEdit inv_nameSave inv_nameCancel)

lemma inv_step: "storeInv s \<Longrightarrow> storeInv (step e s)"
  by (simp add: step_def inv_fire)

lemma inv_exec: "storeInv s \<Longrightarrow> storeInv (exec es s)"
  by (induction es arbitrary: s) (simp_all add: inv_step)

lemma exec_inv: "storeInv (exec es initApp)"
  by (rule inv_exec) (rule inv_init)

lemma length_sampleText: "length sampleText = 50"
  by (simp add: sampleText_def)

lemma step_typeStory:
  "versions (step typeStory initApp) = [sampleRoot]"
  "currentVersionIndex (step typeStory initApp) = 0"
  "isCompareMode (step typeStory initApp) = False"
  "compareVersionIndex (step typeStory initApp) = None"
  by (simp_all add: step_def typeStory_def handleTextChange_def length_sampleText
        initApp_def emptyAnalysis_def sampleRoot_def)

lemma step_rewriteStory:
  assumes "nth_opt (versions s) (currentVersionIndex s) = Some c"
  shows "versions (step rewriteStory s) =
           versions s @ [sampleChild (length (versions s) + 1) (sv_id c)]"
    and "currentVersionIndex (step rewriteStory s) = int (length (versions s))"
    and "isCompareMode (step rewriteStory s) = isCompareMode s"
    and "compareVersionIndex (step rewriteStory s) = compareVersionIndex s"
  using assms
  by (simp_all add: step_def rewriteStory_def handleRewrite_def commitRewrite_def
        createNewVersion_def emptyAnalysis_def sampleChild_def)

lemma step_delete:
  assumes "0 < d" "d < int (length (versions s))"
    "indexValid (versions s) (currentVersionIndex s)"
  shows "versions (step (VersionDelete d) s) = removeAt d (versions s)"
    and "currentVersionIndex (step (VersionDelete d) s) =
           (if currentVersionIndex s \<ge> d then currentVersionIndex s - 1 else currentVersionIndex s)"
  using assms delete_effect [OF assms]
  by (simp_all add: step_def inRange_def)

lemma sample_ids:
  "sv_id sampleRoot = [118, 49]"
  "sv_id (sampleChild 2 p) = [118, 50]"
  "sv_id (sampleChild 3 p) = [118, 51]"
  "parentVersionId sampleRoot = None"
  "parentVersionId (sampleChild n p) = Some p"
  by (simp_all add: sampleRoot_def initialVersion_def sampleChild_def ascii_def
        string_of_nat.simps)

lemma chain3:
  "versions chain3 = [sampleRoot, sampleChild 2 [118, 49], sampleChild 3 [118, 50]]"
  "currentVersionIndex chain3 = 2"
  "isCompareMode chain3 = False"
  "compareVersionIndex chain3 = None"
proof -
  let ?s1 = "step typeStory initApp"
  let ?s2 = "step rewriteStory ?s1"
  have n1: "nth_opt (versions ?s1) (currentVersionIndex ?s1) = Some sampleRoot"
    by (simp add: step_typeStory nth_opt_def)
  note s2 = step_rewriteStory [OF n1]
  have v2: "versions ?s2 = [sampleRoot, sampleChild 2 [118, 49]]"
    by (simp add: s2 step_typeStory sample_ids numeral_2_eq_2 [symmetric])
  have n2: "nth_opt (versions ?s2) (currentVersionIndex ?s2) = Some (sampleChild 2 [118, 49])"
    by (simp add: v2 s2 step_typeStory nth_opt_def)
  note s3 = step_rewriteStory [OF n2]
  show "versions chain3 = [sampleRoot, sampleChild 2 [118, 49], sampleChild 3 [118, 50]]"
    by (simp add: chain3_def s3 v2 sample_ids numeral_3_eq_3 [symmetric])
  show "currentVersionIndex chain3 = 2"
    by (simp add: chain3_def s3 v2)
  show "isCompareMode chain3 = False"
    by (simp add: chain3_def s3 s2 step_typeStory)
  show "compareVersionIndex chain3 = None"
    by (simp add: chain3_def s3 s2 step_typeStory)
qed

lemma removeAt_sample:
  "removeAt 1 [a, b, c] = [a, c]" "removeAt 2 [a, b, c] = [a, b]"
  by (simp_all add: removeAt_in)

lemma middle_versions:
  "versions (exec middleSession initApp) = [sampleRoot, sampleChild 3 [118, 50]]"
  "currentVersionIndex (exec middleSession initApp) = 1"
proof -
  have e: "exec middleSession initApp = step (VersionDelete 1) chain3"
    by (simp add: middleSession_def chain3_def)
  have iv: "indexValid (versions chain3) (currentVersionIndex chain3)"
    by (simp add: chain3 indexValid_def)
  have d: "(0::int) < 1" "1 < int (length (versions chain3))" by (simp_all add: chain3)
  note sd = step_delete [OF d iv]
  show "versions (exec middleSession initApp) = [sampleRoot, sampleChild 3 [118, 50]]"
    by (simp add: e sd chain3 removeAt_sample)
  show "currentVersionIndex (exec middleSession initApp) = 1"
    by (simp add: e sd chain3)
qed

lemma recreate_versions:
  "versions (exec recreateSession initApp) =
     [sampleRoot, sampleChild 3 [118, 50], sampleChild 3 [118, 51]]"
proof -
  have e: "exec recreateSession initApp = step rewriteStory (exec middleSession initApp)"
    by (simp add: recreateSession_def middleSession_def)
  have n: "nth_opt (versions (exec middleSession initApp))
             (currentVersionIndex (exec middleSession initApp)) = Some (sampleChild 3 [118, 50])"
    by (simp add: middle_versions nth_opt_def)
  show ?thesis
    by (simp add: e step_rewriteStory [OF n] middle_versions sample_ids numeral_3_eq_3 [symmetric])
qed


lemma rootFirst_count: "rootFirst vs \<Longrightarrow> vs \<noteq> [] \<Longrightarrow> rootCount vs = 1"
proof (cases vs)
  case Nil
  assume "vs \<noteq> []"
  with Nil show ?thesis by simp
next
  case (Cons r cs)
  assume "rootFirst vs"
  with Cons have r: "parentVersionId r = None"
    and cs: "\<forall>v\<in>set cs. parentVersionId v \<noteq> None"
    by (simp_all add: rootFirst_def list_all_iff)
  from cs have "filter (\<lambda>v. parentVersionId v = None) cs = []"
    by (simp add: filter_empty_conv)
  with Cons r show ?thesis by (simp add: rootCount_def)
qed

lemma parentsPresent_iff:
  "parentsPresent vs \<longleftrightarrow>
     (\<forall>v\<in>set vs. \<forall>p. parentVersionId v = Some p \<longrightarrow> p \<in> sv_id ` set vs)"
  by (auto simp: parentsPresent_def list_all_iff split: option.splits)

lemma pp_snoc:
  "parentsPresent vs \<Longrightarrow> parentVersionId v = Some p \<Longrightarrow> p \<in> sv_id ` set vs \<Longrightarrow>
     parentsPresent (vs @ [v])"
  by (auto simp: parentsPresent_iff)

lemma pp_update:
  assumes "parentsPresent vs" "k < length vs" "sv_id v = sv_id (vs ! k)"
    "parentVersionId v = parentVersionId (vs ! k)"
  shows "parentsPresent (vs[k := v])"
proof -
  have "map sv_id (vs[k := v]) = map sv_id vs"
    using assms(2,3) by (simp add: map_update list_update_same_conv)
  then have ids: "sv_id ` set (vs[k := v]) = sv_id ` set vs"
    by (metis set_map)
  have "\<And>w p. w \<in> set (vs[k := v]) \<Longrightarrow> parentVersionId w = Some p \<Longrightarrow> p \<in> sv_id ` set vs"
  proof -
    fix w p
    assume w: "w \<in> set (vs[k := v])" and p: "parentVersionId w = Some p"
    from w have "w = v \<or> w \<in> set vs"
      using set_update_subset_insert [of vs k v] by auto
    then show "p \<in> sv_id ` set vs"
    proof
      assume "w = v"
      with p assms(4) have "parentVersionId (vs ! k) = Some p" by simp
      moreover have "vs ! k \<in> set vs" using assms(2) by simp
      ultimately show ?thesis using assms(1) by (auto simp: parentsPresent_iff)
    next
      assume "w \<in> set vs"
      with p assms(1) show ?thesis by (auto simp: parentsPresent_iff)
    qed
  qed
  then show ?thesis unfolding parentsPresent_iff ids by blast
qed

lemma pp_removeAt:
  assumes pp: "parentsPresent vs" and d: "0 \<le> d" "d < int (length vs)"
    and no: "\<not> list_ex (\<lambda>w. parentVersionId w = Some (sv_id (vs ! nat d))) vs"
  shows "parentsPresent (removeAt d vs)"
proof -
  let ?k = "nat d"
  have k: "?k < length vs" using d by simp
  have r: "removeAt d vs = take ?k vs @ drop (Suc ?k) vs"
    using d by (simp add: removeAt_in)
  have vs: "vs = take ?k vs @ (vs ! ?k) # drop (Suc ?k) vs"
    using k by (simp add: id_take_nth_drop [symmetric])
  have sub: "set (removeAt d vs) \<subseteq> set vs" by (rule set_removeAt)
  have ids: "sv_id ` set vs = insert (sv_id (vs ! ?k)) (sv_id ` set (removeAt d vs))"
  proof -
    have "set vs = insert (vs ! ?k) (set (take ?k vs) \<union> set (drop (Suc ?k) vs))"
      by (subst vs) auto
    then show ?thesis by (auto simp: r)
  qed
  show ?thesis unfolding parentsPresent_iff
  proof (intro ballI allI impI)
    fix w p
    assume w: "w \<in> set (removeAt d vs)" and p: "parentVersionId w = Some p"
    from w sub have wv: "w \<in> set vs" by blast
    with p pp have "p \<in> sv_id ` set vs" by (auto simp: parentsPresent_iff)
    moreover from no wv p have "p \<noteq> sv_id (vs ! ?k)"
      by (auto simp: list_ex_iff)
    ultimately show "p \<in> sv_id ` set (removeAt d vs)" using ids by auto
  qed
qed

lemma nth_opt_SomeD: "nth_opt xs i = Some x \<Longrightarrow> 0 \<le> i \<and> nat i < length xs \<and> x = xs ! nat i"
  by (auto simp: nth_opt_def split: if_splits)

lemma pp_textChange:
  "parentsPresent (versions s) \<Longrightarrow> parentsPresent (versions (handleTextChange newText reply now s))"
  using textChange_effect [of newText reply now s]
  by (auto simp: parentsPresent_iff initialVersion_def)

lemma pp_rewrite:
  assumes "parentsPresent (versions s)"
  shows "parentsPresent (versions (handleRewrite d rw r1 r2 now s))"
proof -
  let ?s' = "handleRewrite d rw r1 r2 now s"
  from rewrite_effect [of d rw r1 r2 now s] show ?thesis
  proof
    assume "?s' = s"
    with assms show ?thesis by simp
  next
    assume "\<exists>v cur. nth_opt (versions s) (currentVersionIndex s) = Some cur
        \<and> parentVersionId v = Some (sv_id cur)
        \<and> sv_id v = ascii ''v'' @ string_of_nat (length (versions s) + 1)
        \<and> versions ?s' = versions s @ [v]
        \<and> currentVersionIndex ?s' = int (length (versions s))
        \<and> isCompareMode ?s' = isCompareMode s
        \<and> compareVersionIndex ?s' = compareVersionIndex s"
    then obtain v cur where cur: "nth_opt (versions s) (currentVersionIndex s) = Some cur"
      and v: "parentVersionId v = Some (sv_id cur)"
      and e: "versions ?s' = versions s @ [v]"
      by blast
    from cur have "cur \<in> set (versions s)" by (auto dest!: nth_opt_SomeD)
    then have "sv_id cur \<in> sv_id ` set (versions s)" by blast
    with assms v show ?thesis unfolding e by (rule pp_snoc)
  qed
qed

lemma pp_reanalyze:
  assumes "parentsPresent (versions s)"
  shows "parentsPresent (versions (handleReanalyze reply now s))"
proof -
  let ?s' = "handleReanalyze reply now s"
  from reanalyze_effect [of reply now s] show ?thesis
  proof
    assume "?s' = s"
    with assms show ?thesis by simp
  next
    assume "\<exists>v cur. nth_opt (versions s) (currentVersionIndex s) = Some cur
        \<and> parentVersionId v = parentVersionId cur \<and> sv_id v = sv_id cur
        \<and> versions ?s' = (versions s)[nat (currentVersionIndex s) := v]
        \<and> currentVersionIndex ?s' = currentVersionIndex s
        \<and> isCompareMode ?s' = isCompareMode s
        \<and> compareVersionIndex ?s' = compareVersionIndex s"
    then obtain v cur where cur: "nth_opt (versions s) (currentVersionIndex s) = Some cur"
      and v: "parentVersionId v = parentVersionId cur" "sv_id v = sv_id cur"
      and e: "versions ?s' = (versions s)[nat (currentVersionIndex s) := v]"
      by blast
    from cur have k: "nat (currentVersionIndex s) < length (versions s)"
      "cur = versions s ! nat (currentVersionIndex s)"
      by (auto dest!: nth_opt_SomeD)
    with assms v show ?thesis unfolding e by (simp add: pp_update)
  qed
qed

lemma pp_nameSave:
  assumes "parentsPresent (versions s)"
  shows "parentsPresent (versions (handleVersionNameSave s))"
proof (cases "editVersionDialog s")
  case None
  with assms show ?thesis by (simp add: handleVersionNameSave_def)
next
  case (Some d)
  obtain i name where d: "d = (i, name)" by (cases d)
  let ?v = "(versions s ! nat i)\<lparr>sv_name := name\<rparr>"
  have s': "versions (handleVersionNameSave s) = (versions s)[nat i := ?v]"
    using Some d by (simp add: handleVersionNameSave_def)
  show ?thesis
  proof (cases "nat i < length (versions s)")
    case True
    with assms show ?thesis unfolding s' by (simp add: pp_update)
  next
    case False
    with assms show ?thesis unfolding s' by (simp add: list_update_beyond)
  qed
qed

lemma pp_delete:
  assumes pp: "parentsPresent (versions s)" and inv: "storeInv s" and en: "inRange s d"
    and no: "\<not> orphaning s (VersionDelete d)"
  shows "parentsPresent (versions (snd (handleVersionDelete d s)))"
proof (cases "d = 0")
  case True
  with pp show ?thesis by (simp add: handleVersionDelete_def)
next
  case False
  with en have d: "0 < d" "d < int (length (versions s))" by (auto simp: inRange_def)
  then have ne: "versions s \<noteq> []" by auto
  with inv have cur: "indexValid (versions s) (currentVersionIndex s)"
    by (simp add: storeInv_def activeValid_def)
  from d no False have
    "\<not> list_ex (\<lambda>w. parentVersionId w = Some (sv_id (versions s ! nat d))) (versions s)"
    by (simp add: nth_opt_def)
  with pp d have "parentsPresent (removeAt d (versions s))"
    by (simp add: pp_removeAt)
  then show ?thesis by (simp add: delete_effect [OF d cur])
qed

lemma pp_step:
  assumes "parentsPresent (versions s)" "storeInv s" "\<not> orphaning s e"
  shows "parentsPresent (versions (step e s))"
proof (cases "enabled s e")
  case False
  with assms show ?thesis by (simp add: step_def)
next
  case True
  show ?thesis
  proof (cases e)
    case (TextChange t r n)
    with assms True show ?thesis by (simp add: step_def pp_textChange)
  next
    case (Rewrite d rw r1 r2 n)
    with assms True show ?thesis by (simp add: step_def pp_rewrite)
  next
    case (Reanalyze r n)
    with assms True show ?thesis by (simp add: step_def pp_reanalyze)
  next
    case (VersionChange i)
    with assms True show ?thesis
      using versionChange_effect [of "versions s" i s]
      by (simp add: step_def handleVersionChange_def)
  next
    case (VersionDelete d)
    with assms True show ?thesis by (simp add: step_def pp_delete)
  next
    case ToggleCompare
    with assms True show ?thesis by (simp add: step_def toggleCompareMode_def)
  next
    case (NameEditStart i)
    with assms True show ?thesis
      by (cases "nth_opt (versions s) i") (simp_all add: step_def handleVersionNameEditStart_def)
  next
    case (NameEdit n)
    with assms True show ?thesis by (simp add: step_def)
  next
    case NameSave
    with assms True show ?thesis by (simp add: step_def pp_nameSave)
  next
    case NameCancel
    with assms True show ?thesis by (simp add: step_def handleVersionNameCancel_def)
  qed
qed

lemma pp_exec:
  "parentsPresent (versions s) \<Longrightarrow> storeInv s \<Longrightarrow> noOrphaning es s \<Longrightarrow>
     parentsPresent (versions (exec es s))"
  by (induction es arbitrary: s) (simp_all add: pp_step inv_step)

text \<open>
  Claim C1, as amended. After any sequence of events, a store that is not empty has
  exactly one version with \<open>parentVersionId = null\<close>; and as long as no event has deleted
  a version whose id another version carries as its parent, every non-null
  \<open>parentVersionId\<close> is the id of a version of the store.
\<close>

theorem store_root_and_parents:
  "(versions (exec es initApp) \<noteq> [] \<longrightarrow> rootCount (versions (exec es initApp)) = 1)
   \<and> (noOrphaning es initApp \<longrightarrow> parentsPresent (versions (exec es initApp)))"
proof -
  have "storeInv (exec es initApp)" by (rule exec_inv)
  then have "rootFirst (versions (exec es initApp))" by (simp add: storeInv_def)
  then have a: "versions (exec es initApp) \<noteq> [] \<longrightarrow> rootCount (versions (exec es initApp)) = 1"
    by (simp add: rootFirst_count)
  have "parentsPresent (versions initApp)" by (simp add: initApp_def parentsPresent_def)
  then have "noOrphaning es initApp \<longrightarrow> parentsPresent (versions (exec es initApp))"
    by (simp add: pp_exec inv_init)
  with a show ?thesis by simp
qed

lemma leaf_versions:
  "versions (exec leafSession initApp) = [sampleRoot, sampleChild 2 [118, 49]]"
  "currentVersionIndex (exec leafSession initApp) = 1"
proof -
  have e: "exec leafSession initApp = step (VersionDelete 2) chain3"
    by (simp add: leafSession_def chain3_def)
  have iv: "indexValid (versions chain3) (currentVersionIndex chain3)"
    by (simp add: chain3 indexValid_def)
  have d: "(0::int) < 2" "2 < int (length (versions chain3))" by (simp_all add: chain3)
  note sd = step_delete [OF d iv]
  show "versions (exec leafSession initApp) = [sampleRoot, sampleChild 2 [118, 49]]"
    by (simp add: e sd chain3 removeAt_sample)
  show "currentVersionIndex (exec leafSession initApp) = 1"
    by (simp add: e sd chain3)
qed

lemma leaf_noOrphaning: "noOrphaning leafSession initApp"
proof -
  have "\<not> orphaning chain3 (VersionDelete 2)"
    by (simp add: chain3 nth_opt_def sample_ids)
  then show ?thesis
    by (simp add: leafSession_def typeStory_def rewriteStory_def chain3_def)
qed

text \<open>
  Witness for C1: three versions in a chain, then the last one deleted. The store is not
  empty and no deletion was orphaning.
\<close>

theorem store_root_and_parents_witness:
  "versions (exec leafSession initApp) \<noteq> [] \<and> noOrphaning leafSession initApp
   \<and> rootCount (versions (exec leafSession initApp)) = 1
   \<and> parentsPresent (versions (exec leafSession initApp))"
  using store_root_and_parents [of leafSession]
  by (simp add: leaf_versions leaf_noOrphaning)

text \<open>
  Counterexample to C1 as stated: in the chain v1, v2, v3 the version v2 is deleted.
  \<^verbatim>\<open>handleVersionDelete\<close> removes it and leaves v3 with \<open>parentVersionId = "v2"\<close>, the id
  of no version of the store (\<^verbatim>\<open>analyzeVersionRelationships\<close> skips such a version:
  \<^verbatim>\<open>if (!parentVersion) continue\<close>).
\<close>

theorem deleting_a_parent_orphans_its_child:
  "rootCount (versions (exec middleSession initApp)) = 1
   \<and> \<not> parentsPresent (versions (exec middleSession initApp))"
  by (simp add: middle_versions parentsPresent_def rootCount_def sample_ids)

text \<open>
  Claim C2 fails on the code. \<^verbatim>\<open>createNewVersion\<close> numbers the new id by the length of
  the list; after the deletion of v2 from v1, v2, v3 the list has two versions, and the
  next rewrite creates a second version with the id "v3".
\<close>

theorem recreated_version_repeats_an_id:
  "map sv_id (versions (exec recreateSession initApp)) = [ascii ''v1'', ascii ''v3'', ascii ''v3'']
   \<and> \<not> distinct (map sv_id (versions (exec recreateSession initApp)))"
  by (simp add: recreate_versions sample_ids ascii_def)

text \<open>
  Claim C3. In a reachable state \<open>s\<close>, the deletion of the version at an index \<open>d\<close> other
  than 0 runs without an exception and shortens the list by one; afterwards the active
  index and the compare index (when set) are non-negative and below the new length; the
  active index is decremented when it was after the deleted slot, moves to \<open>d - 1\<close> when
  the active version itself was deleted, and is unchanged otherwise; the compare index
  is decremented when it was after the deleted slot, and the compare mode is cleared
  when the compared version was deleted.
\<close>

theorem delete_keeps_indices_valid:
  assumes s: "s = exec es initApp"
    and d: "0 < d" "d < int (length (versions s))"
    and s': "s' = snd (handleVersionDelete d s)"
  shows "fst (handleVersionDelete d s) = None
    \<and> int (length (versions s')) = int (length (versions s)) - 1
    \<and> indexValid (versions s') (currentVersionIndex s')
    \<and> (case compareVersionIndex s' of None \<Rightarrow> True | Some c \<Rightarrow> indexValid (versions s') c)
    \<and> currentVersionIndex s' =
        (if currentVersionIndex s > d then currentVersionIndex s - 1
         else if currentVersionIndex s = d then d - 1
         else currentVersionIndex s)
    \<and> compareVersionIndex s' =
        (case compareVersionIndex s of
           None \<Rightarrow> None
         | Some c \<Rightarrow> if c = d then None else if c > d then Some (c - 1) else Some c)
    \<and> isCompareMode s' = (compareVersionIndex s' \<noteq> None)"
proof -
  have inv: "storeInv s" unfolding s by (rule exec_inv)
  from d have ne: "versions s \<noteq> []" by auto
  with inv have cur: "indexValid (versions s) (currentVersionIndex s)"
    by (simp add: storeInv_def activeValid_def)
  note e = delete_effect [OF d cur]
  from inv have cm: "isCompareMode s \<longleftrightarrow> compareVersionIndex s \<noteq> None"
    and cv: "\<And>c. compareVersionIndex s = Some c \<Longrightarrow> indexValid (versions s) c"
    by (simp_all add: storeInv_def compareValid_def)
  have len: "int (length (versions s')) = int (length (versions s)) - 1"
    using d by (simp add: s' e removeAt_length)
  have a: "indexValid (versions s') (currentVersionIndex s')"
    using cur d len by (auto simp: s' e indexValid_def)
  have c1: "compareVersionIndex s' =
        (case compareVersionIndex s of
           None \<Rightarrow> None
         | Some c \<Rightarrow> if c = d then None else if c > d then Some (c - 1) else Some c)"
    using cm by (cases "compareVersionIndex s") (simp_all add: s' e)
  have c2: "case compareVersionIndex s' of None \<Rightarrow> True | Some c \<Rightarrow> indexValid (versions s') c"
  proof (cases "compareVersionIndex s")
    case None
    then show ?thesis by (simp add: c1)
  next
    case (Some c)
    from cv [OF Some] d len show ?thesis
      by (simp add: c1 Some indexValid_def)
  qed
  have c3: "isCompareMode s' = (compareVersionIndex s' \<noteq> None)"
    using cm by (cases "compareVersionIndex s") (auto simp: c1 s' e)
  have c4: "currentVersionIndex s' =
        (if currentVersionIndex s > d then currentVersionIndex s - 1
         else if currentVersionIndex s = d then d - 1
         else currentVersionIndex s)"
    by (auto simp: s' e)
  from e(1) len a c2 c4 c1 c3 show ?thesis by simp
qed

lemma compare_versions:
  "versions (exec compareSession initApp) = versions chain3"
  "currentVersionIndex (exec compareSession initApp) = 2"
  "compareVersionIndex (exec compareSession initApp) = Some 1"
proof -
  have e: "exec compareSession initApp = step ToggleCompare chain3"
    by (simp add: compareSession_def chain3_def)
  show "versions (exec compareSession initApp) = versions chain3"
    by (simp add: e step_def toggleCompareMode_def chain3)
  show "currentVersionIndex (exec compareSession initApp) = 2"
    by (simp add: e step_def toggleCompareMode_def chain3)
  show "compareVersionIndex (exec compareSession initApp) = Some 1"
    by (simp add: e step_def toggleCompareMode_def chain3)
qed

text \<open>
  Witness for C3: the chain v1, v2, v3 with v3 active and v2 compared; v2 is deleted.
  The active index goes from 2 to 1 and the compare mode is cleared.
\<close>

theorem delete_keeps_indices_valid_witness:
  "(0::int) < 1 \<and> 1 < int (length (versions (exec compareSession initApp)))
   \<and> currentVersionIndex (exec compareSession initApp) = 2
   \<and> compareVersionIndex (exec compareSession initApp) = Some 1
   \<and> fst (handleVersionDelete 1 (exec compareSession initApp)) = None
   \<and> indexValid (versions (snd (handleVersionDelete 1 (exec compareSession initApp))))
        (currentVersionIndex (snd (handleVersionDelete 1 (exec compareSession initApp))))
   \<and> currentVersionIndex (snd (handleVersionDelete 1 (exec compareSession initApp))) = 1
   \<and> compareVersionIndex (snd (handleVersionDelete 1 (exec compareSession initApp))) = None
   \<and> \<not> isCompareMode (snd (handleVersionDelete 1 (exec compareSession initApp)))"
proof -
  have d: "(0::int) < 1" "1 < int (length (versions (exec compareSession initApp)))"
    by (simp_all add: compare_versions chain3)
  from delete_keeps_indices_valid [OF refl d refl] d show ?thesis
    by (auto simp: compare_versions)
qed
section \<open>Proofs: relationship analysis\<close>

lemma string_of_nat_nonempty: "string_of_nat n \<noteq> []"
  by (subst string_of_nat.simps) simp

lemma string_of_nat_digits: "set (string_of_nat n) \<subseteq> {48..57}"
proof (induction n rule: string_of_nat.induct)
  case (1 n)
  show ?case
  proof (cases "n < 10")
    case True
    then show ?thesis by (subst string_of_nat.simps) simp
  next
    case False
    have "n mod 10 < 10" by simp
    then have "48 + n mod 10 \<le> 57" by linarith
    with False 1 show ?thesis by (subst string_of_nat.simps) simp
  qed
qed

lemma string_of_nat_inj: "string_of_nat n = string_of_nat m \<Longrightarrow> n = m"
proof (induction n arbitrary: m rule: string_of_nat.induct)
  case (1 n)
  show ?case
  proof (cases "n < 10")
    case n: True
    show ?thesis
    proof (cases "m < 10")
      case True
      with n "1.prems" show ?thesis by (simp add: string_of_nat.simps [of n] string_of_nat.simps [of m])
    next
      case False
      with n "1.prems" string_of_nat_nonempty [of "m div 10"] show ?thesis
        by (simp add: string_of_nat.simps [of n] string_of_nat.simps [of m])
    qed
  next
    case n: False
    show ?thesis
    proof (cases "m < 10")
      case True
      with n "1.prems" string_of_nat_nonempty [of "n div 10"] show ?thesis
        by (simp add: string_of_nat.simps [of n] string_of_nat.simps [of m])
    next
      case False
      with n "1.prems" have "string_of_nat (n div 10) = string_of_nat (m div 10)"
        and md: "n mod 10 = m mod 10"
        by (simp_all add: string_of_nat.simps [of n] string_of_nat.simps [of m])
      with n "1.IH" have dv: "n div 10 = m div 10" by simp
      have "n = 10 * (n div 10) + n mod 10" by simp
      also have "\<dots> = 10 * (m div 10) + m mod 10" by (simp only: dv md)
      also have "\<dots> = m" by simp
      finally show ?thesis .
    qed
  qed
qed

lemma append_sep_eq:
  assumes "xs @ c # ys = xs' @ c # ys'" "c \<notin> set xs" "c \<notin> set xs'"
  shows "xs = xs' \<and> ys = ys'"
  using assms
proof (induction xs arbitrary: xs')
  case Nil
  then show ?case by (cases xs') auto
next
  case (Cons x xs)
  then show ?case by (cases xs') auto
qed

lemma positionKey_inj: "positionKey i = positionKey j \<Longrightarrow> i = j"
proof -
  assume a: "positionKey i = positionKey j"
  have d: "45 \<notin> set (string_of_nat n)" for n
  proof
    assume "45 \<in> set (string_of_nat n)"
    with string_of_nat_digits [of n] have "(45::nat) \<in> {48..57}" by blast
    then show False by simp
  qed
  from a have "string_of_nat i @ 45 # string_of_nat (i - 1) = string_of_nat j @ 45 # string_of_nat (j - 1)"
    by (simp add: positionKey_def ascii_def)
  then have "string_of_nat i = string_of_nat j"
    using append_sep_eq [OF _ d d] by blast
  then show ?thesis by (rule string_of_nat_inj)
qed

lemma passUpTo_step:
  assumes p: "passUpTo an vs i (calls, m)" and i: "1 \<le> i"
  shows "bothCharts vs i \<Longrightarrow>
           passUpTo an vs (i + 1)
             (calls @ [pairArgs vs i], m(positionKey i \<mapsto> an (length calls) (pairArgs vs i)))"
    and "\<not> bothCharts vs i \<Longrightarrow> passUpTo an vs (i + 1) (calls, m)"
proof -
  have upt: "[1..<i + 1] = [1..<i] @ [i]" using i by simp
  from p have c: "calls = map (pairArgs vs) (filter (bothCharts vs) [1..<i])"
    and m: "\<And>j. m (positionKey j) =
             (if j \<in> set (filter (bothCharts vs) [1..<i])
              then Some (an (callNumber vs j) (pairArgs vs j)) else None)"
    and d: "dom m \<subseteq> range positionKey"
    by (simp_all add: passUpTo_def)
  from c have n: "length calls = callNumber vs i" by (simp add: callNumber_def)
  {
    assume b: "bothCharts vs i"
    have "\<And>j. (m(positionKey i \<mapsto> an (length calls) (pairArgs vs i))) (positionKey j) =
             (if j \<in> set (filter (bothCharts vs) [1..<i + 1])
              then Some (an (callNumber vs j) (pairArgs vs j)) else None)"
    proof -
      fix j
      show "(m(positionKey i \<mapsto> an (length calls) (pairArgs vs i))) (positionKey j) =
             (if j \<in> set (filter (bothCharts vs) [1..<i + 1])
              then Some (an (callNumber vs j) (pairArgs vs j)) else None)"
      proof (cases "j = i")
        case True
        with b i show ?thesis by (simp add: n upt)
      next
        case False
        then have "positionKey j \<noteq> positionKey i" using positionKey_inj by blast
        with False show ?thesis by (simp add: m upt)
      qed
    qed
    moreover have "dom (m(positionKey i \<mapsto> an (length calls) (pairArgs vs i))) \<subseteq> range positionKey"
      using d by auto
    ultimately show "passUpTo an vs (i + 1)
             (calls @ [pairArgs vs i], m(positionKey i \<mapsto> an (length calls) (pairArgs vs i)))"
      using b c i by (simp add: passUpTo_def upt)
  }
  {
    assume b: "\<not> bothCharts vs i"
    then have f: "filter (bothCharts vs) [1..<i + 1] = filter (bothCharts vs) [1..<i]"
      by (simp add: upt)
    from p show "passUpTo an vs (i + 1) (calls, m)"
      unfolding passUpTo_def f .
  }
qed

lemma analyzeRelationshipsFrom_inv:
  "1 \<le> i \<Longrightarrow> passUpTo an vs i p \<Longrightarrow>
     passUpTo an vs (max i (length vs)) (analyzeRelationshipsFrom an vs i p)"
proof (induction an vs i p rule: analyzeRelationshipsFrom.induct)
  case (1 an vs i calls m)
  show ?case
  proof (cases "i < length vs")
    case False
    then have "max i (length vs) = i" by simp
    with False "1.prems" show ?thesis
      by (simp add: analyzeRelationshipsFrom.simps [of an vs i])
  next
    case lt: True
    then have mx: "max (i + 1) (length vs) = max i (length vs)" by simp
    show ?thesis
    proof (cases "bothCharts vs i")
      case True
      from passUpTo_step(1) [OF "1.prems"(2,1) True]
      have "passUpTo an vs (max (i + 1) (length vs))
              (analyzeRelationshipsFrom an vs (i + 1)
                 (calls @ [pairArgs vs i], m(positionKey i \<mapsto> an (length calls) (pairArgs vs i))))"
        using "1.IH"(1) [OF lt True refl] by simp
      with lt True show ?thesis
        by (simp add: analyzeRelationshipsFrom.simps [of an vs i] mx)
    next
      case False
      from passUpTo_step(2) [OF "1.prems"(2,1) False]
      have "passUpTo an vs (max (i + 1) (length vs))
              (analyzeRelationshipsFrom an vs (i + 1) (calls, m))"
        using "1.IH"(2) [OF lt False] by simp
      with lt False show ?thesis
        by (simp add: analyzeRelationshipsFrom.simps [of an vs i] mx)
    qed
  qed
qed

lemma analyzeRelationships_pass:
  "passUpTo an vs (length vs) (analyzeRelationships an vs)"
proof -
  have "passUpTo an vs 1 ([], Map.empty)" by (simp add: passUpTo_def)
  then have a: "passUpTo an vs (max 1 (length vs)) (analyzeRelationships an vs)"
    unfolding analyzeRelationships_def by (intro analyzeRelationshipsFrom_inv) simp_all
  show ?thesis
  proof (cases "length vs = 0")
    case True
    have "passUpTo an vs 1 p = passUpTo an vs 0 p" for p :: "'a pass"
      by (simp add: passUpTo_def)
    with a True show ?thesis by simp
  next
    case False
    then have "1 \<le> length vs" by (cases vs) simp_all
    then have "max 1 (length vs) = length vs" by (rule max_absorb2)
    with a show ?thesis by simp
  qed
qed

lemma analyzeVersionsLoop_calls:
  "fst (analyzeVersionsLoop an vs rest (calls, m)) =
     calls @ map edgeArgs
       (List.map_filter (\<lambda>version. map_option (\<lambda>p. (p, version)) (parentOf vs version)) rest)"
proof (induction rest arbitrary: calls m)
  case Nil
  then show ?case by (simp add: map_filter_simps)
next
  case (Cons v rest)
  then show ?case
    by (cases "parentOf vs v") (simp_all add: map_filter_simps Let_def)
qed

lemma analyzeVersionsLoop_keys:
  "dom (snd (analyzeVersionsLoop an vs rest (calls, m))) =
     dom m \<union> edgeKey ` set
       (List.map_filter (\<lambda>version. map_option (\<lambda>p. (p, version)) (parentOf vs version)) rest)"
proof (induction rest arbitrary: calls m)
  case Nil
  then show ?case by (simp add: map_filter_simps)
next
  case (Cons v rest)
  then show ?case
    by (cases "parentOf vs v") (auto simp add: map_filter_simps Let_def)
qed

lemma analyzeRelationships_neighbours:
  "fst (analyzeRelationships an vs) = map (pairArgs vs) (analyzedPositions vs)
   \<and> distinct (analyzedPositions vs)
   \<and> (\<forall>j. snd (analyzeRelationships an vs) (positionKey j) =
          (if j \<in> set (analyzedPositions vs)
           then Some (an (callNumber vs j) (pairArgs vs j)) else None))
   \<and> dom (snd (analyzeRelationships an vs)) = positionKey ` set (analyzedPositions vs)"
proof -
  let ?p = "analyzeRelationships an vs"
  from analyzeRelationships_pass [of an vs]
  have a: "fst ?p = map (pairArgs vs) (analyzedPositions vs)"
    and b: "\<And>j. snd ?p (positionKey j) =
          (if j \<in> set (analyzedPositions vs)
           then Some (an (callNumber vs j) (pairArgs vs j)) else None)"
    and c: "dom (snd ?p) \<subseteq> range positionKey"
    unfolding passUpTo_def analyzedPositions_def by blast+
  have d: "dom (snd ?p) = positionKey ` set (analyzedPositions vs)"
  proof
    show "dom (snd ?p) \<subseteq> positionKey ` set (analyzedPositions vs)"
    proof
      fix k
      assume k: "k \<in> dom (snd ?p)"
      with c obtain j where j: "k = positionKey j" by blast
      with k b [of j] have "j \<in> set (analyzedPositions vs)"
        by (auto split: if_splits)
      with j show "k \<in> positionKey ` set (analyzedPositions vs)" by blast
    qed
  next
    show "positionKey ` set (analyzedPositions vs) \<subseteq> dom (snd ?p)"
      using b by auto
  qed
  have e: "distinct (analyzedPositions vs)" by (simp add: analyzedPositions_def)
  from a b d e show ?thesis by blast
qed

lemma analyzeVersionRelationships_edges:
  "fst (analyzeVersionRelationships an vs) = map edgeArgs (parentEdges vs)
   \<and> dom (snd (analyzeVersionRelationships an vs)) = edgeKey ` set (parentEdges vs)"
  by (simp add: analyzeVersionRelationships_def parentEdges_def analyzeVersionsLoop_calls
        analyzeVersionsLoop_keys)

lemma step_branch:
  assumes "nth_opt (versions s) (currentVersionIndex s) = Some c" "sv_id c = ascii ''v1''"
  shows "versions (step (Rewrite [] (Inr t) (Inr chartAnalysis) (Inr chartAnalysis) 0) s) =
           versions s @ [forkChild (length (versions s) + 1) t]"
    and "currentVersionIndex
           (step (Rewrite [] (Inr t) (Inr chartAnalysis) (Inr chartAnalysis) 0) s) =
           int (length (versions s))"
  using assms
  by (simp_all add: step_def handleRewrite_def commitRewrite_def createNewVersion_def
        forkChild_def chartAnalysis_def)

lemma step_select_first:
  assumes "versions s = v # vs"
  shows "versions (step (VersionChange 0) s) = v # vs"
    and "currentVersionIndex (step (VersionChange 0) s) = 0"
  using assms
  by (simp_all add: step_def handleVersionChange_def versionChange_def nth_opt_def
        inRange_def)

lemma fork_versions: "versions (exec forkSession initApp) = forkStore"
proof -
  let ?root = "initialVersion sampleText chartAnalysis 0"
  let ?s1 = "step (TextChange sampleText (Inr chartAnalysis) 0) initApp"
  let ?s2 = "step (Rewrite [] (Inr (ascii ''b'')) (Inr chartAnalysis) (Inr chartAnalysis) 0) ?s1"
  let ?s3 = "step (VersionChange 0) ?s2"
  let ?s4 = "step (Rewrite [] (Inr (ascii ''c'')) (Inr chartAnalysis) (Inr chartAnalysis) 0) ?s3"
  have id1: "sv_id ?root = ascii ''v1''" by (simp add: initialVersion_def)
  have s1: "versions ?s1 = [?root]" "currentVersionIndex ?s1 = 0"
    by (simp_all add: step_def handleTextChange_def length_sampleText initApp_def
          chartAnalysis_def)
  have n1: "nth_opt (versions ?s1) (currentVersionIndex ?s1) = Some ?root"
    by (simp add: s1 nth_opt_def)
  have s2: "versions ?s2 = [?root, forkChild 2 (ascii ''b'')]"
    by (simp add: step_branch(1) [OF n1 id1] s1 numeral_2_eq_2 [symmetric])
  have s3: "versions ?s3 = [?root, forkChild 2 (ascii ''b'')]" "currentVersionIndex ?s3 = 0"
    by (simp_all add: step_select_first [OF s2])
  have n3: "nth_opt (versions ?s3) (currentVersionIndex ?s3) = Some ?root"
    by (simp add: s3 nth_opt_def)
  have s4: "versions ?s4 = [?root, forkChild 2 (ascii ''b''), forkChild 3 (ascii ''c'')]"
    by (simp add: step_branch(1) [OF n3 id1] s3 numeral_3_eq_3 [symmetric])
  have "exec forkSession initApp = ?s4" by (simp add: forkSession_def)
  with s4 show ?thesis by (simp add: forkStore_def)
qed

lemma fork_basics:
  "length forkStore = 3"
  "bothCharts forkStore (Suc 0)" "bothCharts forkStore (Suc (Suc 0))"
  "pairArgs forkStore (Suc 0) = (Some emptyChart, Some emptyChart, sampleText, [98])"
  "pairArgs forkStore (Suc (Suc 0)) = (Some emptyChart, Some emptyChart, [98], [99])"
  by (simp_all add: forkStore_def forkChild_def initialVersion_def chartAnalysis_def
        bothCharts_def pairArgs_def ascii_def)

lemma keys_eval:
  "positionKey (Suc 0) = [49, 45, 48]" "positionKey (Suc (Suc 0)) = [50, 45, 49]"
  by (simp_all add: positionKey_def string_of_nat.simps ascii_def)

lemma fork_map_pass:
  "analyzeRelationships countingAnalyzer forkStore =
     ([(Some emptyChart, Some emptyChart, sampleText, [98]),
       (Some emptyChart, Some emptyChart, [98], [99])],
      [[49, 45, 48] \<mapsto> 0, [50, 45, 49] \<mapsto> 1])"
  by (simp add: analyzeRelationships_def analyzeRelationshipsFrom.simps fork_basics
        keys_eval countingAnalyzer_def)

lemma fork_fields:
  "map sv_id forkStore = [[118, 49], [118, 50], [118, 51]]"
  "map parentVersionId forkStore = [None, Some [118, 49], Some [118, 49]]"
  "map sv_text forkStore = [sampleText, [98], [99]]"
  "map sv_flowchartData forkStore = [Some emptyChart, Some emptyChart, Some emptyChart]"
  by (simp_all add: forkStore_def forkChild_def initialVersion_def chartAnalysis_def
        ascii_def string_of_nat.simps)

lemma fork_app_pass:
  "analyzeVersionRelationships countingAnalyzer forkStore =
     ([(Some emptyChart, Some emptyChart, sampleText, [98]),
       (Some emptyChart, Some emptyChart, sampleText, [99])],
      [[118, 50, 45, 118, 49] \<mapsto> 0, [118, 51, 45, 118, 49] \<mapsto> 1])"
  by (simp add: analyzeVersionRelationships_def forkStore_def forkChild_def
        initialVersion_def chartAnalysis_def parentOf_def
        edgeArgs_def edgeKey_def countingAnalyzer_def ascii_def string_of_nat.simps)

text \<open>
  Claim C4 fails on the code. The session \<open>forkSession\<close> leaves the root v1 with the two
  children v2 and v3. The effect of the Version Map calls the analyzer on "b" and "c",
  the texts of v2 and v3, as original story and branch, although the parent of v3 is
  v1, and it never compares v1 with v3; it stores the answers under "1-0" and "2-1",
  built from positions, and nothing under a key built from two ids. The pass of
  \<^verbatim>\<open>analyzeVersionRelationships\<close> in App, on the same list, calls the analyzer on the
  two parent-to-child edges and stores the answers under "v2-v1" and "v3-v1".
\<close>

theorem version_map_analyses_neighbours:
  "versions (exec forkSession initApp) = forkStore
   \<and> map sv_id forkStore = [ascii ''v1'', ascii ''v2'', ascii ''v3'']
   \<and> map parentVersionId forkStore = [None, Some (ascii ''v1''), Some (ascii ''v1'')]
   \<and> map sv_text forkStore = [sampleText, ascii ''b'', ascii ''c'']
   \<and> fst (analyzeRelationships countingAnalyzer forkStore) =
       [(Some emptyChart, Some emptyChart, sampleText, ascii ''b''),
        (Some emptyChart, Some emptyChart, ascii ''b'', ascii ''c'')]
   \<and> snd (analyzeRelationships countingAnalyzer forkStore) (ascii ''1-0'') = Some 0
   \<and> snd (analyzeRelationships countingAnalyzer forkStore) (ascii ''2-1'') = Some 1
   \<and> snd (analyzeRelationships countingAnalyzer forkStore) (ascii ''v2-v1'') = None
   \<and> snd (analyzeRelationships countingAnalyzer forkStore) (ascii ''v3-v1'') = None
   \<and> fst (analyzeVersionRelationships countingAnalyzer forkStore) =
       [(Some emptyChart, Some emptyChart, sampleText, ascii ''b''),
        (Some emptyChart, Some emptyChart, sampleText, ascii ''c'')]
   \<and> snd (analyzeVersionRelationships countingAnalyzer forkStore) (ascii ''v2-v1'') = Some 0
   \<and> snd (analyzeVersionRelationships countingAnalyzer forkStore) (ascii ''v3-v1'') = Some 1"
  by (simp add: fork_versions fork_fields fork_map_pass fork_app_pass ascii_def)
section \<open>Proofs: extractFlowchart\<close>

lemma lazyLabel_SomeD:
  "lazyLabel s = Some (l, r) \<Longrightarrow>
     s = l @ 93 # r \<and> 93 \<notin> set l \<and> (\<forall>c\<in>set l. \<not> isLineTerminator c)"
proof (induction s arbitrary: l)
  case Nil
  then show ?case by simp
next
  case (Cons c s)
  show ?case
  proof (cases "c = 93")
    case True
    with Cons.prems show ?thesis by simp
  next
    case False
    with Cons.prems obtain l' where l': "lazyLabel s = Some (l', r)" "l = c # l'"
      and c: "\<not> isLineTerminator c"
      by (auto split: if_splits)
    from Cons.IH [OF l'(1)] l'(2) c False show ?thesis by simp
  qed
qed

lemma lazyLabel_SomeI:
  "93 \<notin> set l \<Longrightarrow> \<forall>c\<in>set l. \<not> isLineTerminator c \<Longrightarrow> lazyLabel (l @ 93 # r) = Some (l, r)"
  by (induction l) simp_all

lemma nodeTokenAt_SomeD:
  assumes "nodeTokenAt s = Some (i, l, r)"
  shows "s = i # 91 # l @ 93 # r \<and> isUpper i \<and> 93 \<notin> set l
         \<and> (\<forall>c\<in>set l. \<not> isLineTerminator c)"
proof -
  from assms obtain b cs where s: "s = i # b # cs" and b: "isUpper i" "b = 91"
    and l: "lazyLabel cs = Some (l, r)"
    by (cases s rule: nodeTokenAt.cases) (auto split: if_splits)
  from lazyLabel_SomeD [OF l] s b show ?thesis by simp
qed

lemma tokensOf_well: "\<forall>t\<in>set (tokensOf s). wellToken t"
proof (induction s rule: tokensOf.induct)
  case 1
  then show ?case by (simp add: tokensOf.simps)
next
  case (2 c cs)
  show ?case
  proof (cases "nodeTokenAt (c # cs)")
    case None
    with 2 show ?thesis by (simp add: tokensOf.simps)
  next
    case (Some x)
    obtain i l r where x: "x = (i, l, r)" by (cases x)
    from nodeTokenAt_SomeD [OF Some [unfolded x]]
    have "wellToken (i, l)" by (simp add: wellToken_def)
    with 2(2) [OF Some x [symmetric] refl] Some x show ?thesis
      by (simp add: tokensOf.simps)
  qed
qed

lemma firstNodeToken_matchedText:
  assumes "wellToken t"
  shows "firstNodeToken (matchedText t) = Some t"
proof -
  obtain i l where t: "t = (i, l)" by (cases t)
  from assms t have "lazyLabel (l @ [93]) = Some (l, [])"
    by (intro lazyLabel_SomeI) (simp_all add: wellToken_def)
  with assms t show ?thesis
    by (simp add: matchedText_def wellToken_def)
qed

lemma pushAll_append: "pushAll nodes (ts @ us) = pushAll (pushAll nodes ts) us"
  by (induction ts arbitrary: nodes) simp_all

lemma forEachMatch_tokens:
  "\<forall>t\<in>set ts. wellToken t \<Longrightarrow> forEachMatch nodes (map matchedText ts) = pushAll nodes ts"
  by (induction ts arbitrary: nodes) (simp_all add: firstNodeToken_matchedText)

lemma firstPass_tokens:
  "firstPass nodes ls = pushAll nodes (concat (map tokensOf ls))"
  by (induction ls arbitrary: nodes)
     (simp_all add: nodeMatches_def forEachMatch_tokens tokensOf_well pushAll_append)

lemma find_id_iff: "(find (\<lambda>n. n_id n = k) nodes = None) = (k \<notin> n_id ` set nodes)"
proof -
  have "(find (\<lambda>n. n_id n = k) nodes = None) = (\<not> (\<exists>n. n \<in> set nodes \<and> n_id n = k))"
    by (rule find_None_iff)
  also have "\<dots> = (k \<notin> n_id ` set nodes)" by blast
  finally show ?thesis .
qed

lemma pushNode_ids:
  "n_id ` set (pushNode nodes t) = insert [fst t] (n_id ` set nodes)"
  by (cases t) (auto simp: pushNode_def find_id_iff simp del: not_None_eq)

lemma pushNode_distinct:
  "distinct (map n_id nodes) \<Longrightarrow> distinct (map n_id (pushNode nodes t))"
  by (cases t) (simp add: pushNode_def find_id_iff)

lemma map_of_skip:
  "k \<in> fst ` set xs \<Longrightarrow> map_of (xs @ (k, v) # ys) = map_of (xs @ ys)"
proof -
  assume "k \<in> fst ` set xs"
  then have "k \<in> dom (map_of xs)" by (simp add: dom_map_of_conv_image_fst)
  then obtain w where "map_of xs k = Some w" by blast
  then have "(map_of ys)(k \<mapsto> v) ++ map_of xs = map_of ys ++ map_of xs"
    by (auto simp: map_add_def fun_eq_iff split: option.splits)
  then show ?thesis by simp
qed

lemma pushNode_labels:
  "map_of (idLabels (pushNode nodes t) @ ys) = map_of (idLabels nodes @ tokenKey t # ys)"
proof (cases "[fst t] \<in> n_id ` set nodes")
  case True
  then have "[fst t] \<in> fst ` set (idLabels nodes)" by (force simp: idLabels_def)
  from map_of_skip [OF this] True show ?thesis
    by (cases t) (simp add: pushNode_def find_id_iff tokenKey_def)
next
  case False
  then show ?thesis
    by (cases t) (simp add: pushNode_def find_id_iff tokenKey_def idLabels_def)
qed

lemma pushAll_ids:
  "n_id ` set (pushAll nodes ts) = n_id ` set nodes \<union> (\<lambda>t. [fst t]) ` set ts"
  by (induction ts arbitrary: nodes) (auto simp: pushNode_ids)

lemma pushAll_distinct:
  "distinct (map n_id nodes) \<Longrightarrow> distinct (map n_id (pushAll nodes ts))"
  by (induction ts arbitrary: nodes) (simp_all add: pushNode_distinct)

lemma pushAll_labels:
  "map_of (idLabels (pushAll nodes ts)) = map_of (idLabels nodes @ map tokenKey ts)"
proof (induction ts arbitrary: nodes)
  case Nil
  then show ?case by simp
next
  case (Cons t ts)
  have "map_of (idLabels (pushAll nodes (t # ts))) = map_of (idLabels (pushNode nodes t) @ map tokenKey ts)"
    using Cons.IH by simp
  also have "\<dots> = map_of (idLabels nodes @ tokenKey t # map tokenKey ts)"
    by (rule pushNode_labels)
  finally show ?case by simp
qed

lemma map_of_tokenKey: "map_of (map tokenKey ts) [i] = map_of ts i"
  by (induction ts) (auto simp: tokenKey_def)

lemma distinct_one:
  "distinct (map f xs) \<Longrightarrow> k \<in> f ` set xs \<Longrightarrow> length (filter (\<lambda>x. f x = k) xs) = 1"
proof (induction xs)
  case Nil
  then show ?case by simp
next
  case (Cons x xs)
  show ?case
  proof (cases "f x = k")
    case True
    from Cons.prems(1) have "f x \<notin> f ` set xs" by simp
    with True have "\<forall>y\<in>set xs. f y \<noteq> k" by blast
    then have "filter (\<lambda>y. f y = k) xs = []"
      by (simp add: filter_empty_conv)
    with True show ?thesis by simp
  next
    case False
    with Cons.prems have "distinct (map f xs)" "k \<in> f ` set xs" by auto
    with Cons.IH False show ?thesis by simp
  qed
qed

lemma node_label:
  assumes d: "distinct (map n_id nodes)" and n: "n \<in> set nodes"
  shows "map_of (idLabels nodes) (n_id n) = Some (n_label n)"
proof -
  have "map fst (idLabels nodes) = map n_id nodes" by (simp add: idLabels_def comp_def)
  with d have "distinct (map fst (idLabels nodes))" by simp
  moreover from n have "(n_id n, n_label n) \<in> set (idLabels nodes)" by (force simp: idLabels_def)
  ultimately show ?thesis by (rule map_of_is_SomeI)
qed

text \<open>
  Claim C5. When the section pattern matches a reply, with \<open>body\<close> the captured diagram
  block, \<^verbatim>\<open>extractFlowchart\<close> returns a flowchart in which every id that occurs in a
  token \<^verbatim>\<open>X[label]\<close> of the block has exactly one node, that node carries the label of
  the first token with this id in line order, and every node comes from a token.
\<close>

theorem extractFlowchart_nodes:
  assumes "flowchartSection reply = Some body"
  shows "\<exists>fc. extractFlowchart reply = Some fc
    \<and> (\<forall>t\<in>set (blockTokens body).
          length (filter (\<lambda>n. n_id n = [fst t]) (fc_nodes fc)) = 1)
    \<and> (\<forall>n\<in>set (fc_nodes fc). \<exists>i. n_id n = [i]
          \<and> i \<in> fst ` set (blockTokens body)
          \<and> map_of (blockTokens body) i = Some (n_label n))"
proof -
  let ?ts = "blockTokens body"
  let ?nodes = "firstPass [] (diagramLines body)"
  let ?fc = "\<lparr>fc_nodes = ?nodes, fc_edges = secondPass (diagramLines body)\<rparr>"
  have fc: "extractFlowchart reply = Some ?fc"
    using assms by (simp add: extractFlowchart_def)
  have nodes: "?nodes = pushAll [] ?ts"
    by (simp add: firstPass_tokens blockTokens_def)
  have d: "distinct (map n_id ?nodes)"
    unfolding nodes by (rule pushAll_distinct) simp
  have ids: "n_id ` set ?nodes = (\<lambda>t. [fst t]) ` set ?ts"
    unfolding nodes by (simp add: pushAll_ids)
  have "idLabels [] = []" by (simp add: idLabels_def)
  with pushAll_labels [of "[]" ?ts]
  have labels: "map_of (idLabels ?nodes) = map_of (map tokenKey ?ts)"
    unfolding nodes by simp
  have one: "\<forall>t\<in>set ?ts. length (filter (\<lambda>n. n_id n = [fst t]) ?nodes) = 1"
  proof
    fix t
    assume "t \<in> set ?ts"
    with ids have "[fst t] \<in> n_id ` set ?nodes" by blast
    with d show "length (filter (\<lambda>n. n_id n = [fst t]) ?nodes) = 1"
      by (rule distinct_one)
  qed
  have first: "\<forall>n\<in>set ?nodes. \<exists>i. n_id n = [i] \<and> i \<in> fst ` set ?ts
                 \<and> map_of ?ts i = Some (n_label n)"
  proof
    fix n
    assume n: "n \<in> set ?nodes"
    with ids obtain t where t: "t \<in> set ?ts" "n_id n = [fst t]" by blast
    from node_label [OF d n] labels have "map_of (map tokenKey ?ts) (n_id n) = Some (n_label n)"
      by simp
    with t have "map_of ?ts (fst t) = Some (n_label n)" by (simp add: map_of_tokenKey)
    with t show "\<exists>i. n_id n = [i] \<and> i \<in> fst ` set ?ts \<and> map_of ?ts i = Some (n_label n)"
      by blast
  qed
  from fc one first show ?thesis by simp
qed

lemma untilFence_plain:
  "96 \<notin> set xs \<Longrightarrow> untilFence (xs @ 10 # fence @ ys) = Some xs"
proof (induction xs)
  case Nil
  then show ?case by (simp add: startsWith_def fence_def)
next
  case (Cons c xs)
  then have "\<not> startsWith (c # xs @ 10 # fence @ ys) (10 # fence)"
    by (cases xs) (auto simp: startsWith_def fence_def)
  with Cons show ?case by simp
qed

lemma sampleBody_plain: "96 \<notin> set sampleBody"
  by (simp add: sampleBody_def ascii_def)

lemma sample_header:
  "headerAndBody (10 # ascii ''graph TD'' @ 10 # rest) = untilFence rest"
  by (simp add: headerAndBody_def ascii_def startsWith_def isSpace_def Let_def)

lemma sample_mermaid:
  "headerAndBody rest = Some body \<Longrightarrow>
     fromMermaid (10 # fence @ ascii ''mermaid'' @ rest) = Some body"
  by (simp add: fence_def ascii_def startsWith_def)

lemma sample_flowchart:
  "fromMermaid rest = Some body \<Longrightarrow>
     flowchartSection (ascii ''[FLOWCHART]'' @ rest) = Some body"
  by (simp add: ascii_def startsWith_def)

lemma sample_section: "flowchartSection sampleReply = Some sampleBody"
proof -
  have "untilFence (sampleBody @ 10 # fence @ []) = Some sampleBody"
    using sampleBody_plain by (rule untilFence_plain)
  then have "headerAndBody (10 # ascii ''graph TD'' @ 10 # sampleBody @ 10 # fence) = Some sampleBody"
    by (simp add: sample_header)
  then have "fromMermaid (10 # fence @ ascii ''mermaid'' @ 10 # ascii ''graph TD'' @ 10 # sampleBody @ 10 # fence)
     = Some sampleBody"
    by (rule sample_mermaid)
  then have "flowchartSection (ascii ''[FLOWCHART]'' @ 10 # fence @ ascii ''mermaid'' @ 10 # ascii ''graph TD'' @ 10 # sampleBody @ 10 # fence)
     = Some sampleBody"
    by (rule sample_flowchart)
  then show ?thesis by (simp add: sampleReply_def)
qed

lemma sample_lines:
  "diagramLines sampleBody = [ascii ''A[go] --> B[one]'', ascii ''B[two] --> C[end]'']"
  by (simp add: diagramLines_def sampleBody_def ascii_def trim_def isSpace_def)

lemma tokens_line1: "tokensOf (ascii ''A[go] --> B[one]'') = [(65, ascii ''go''), (66, ascii ''one'')]"
  by (simp add: ascii_def tokensOf.simps isUpper_def isLineTerminator_def)

lemma tokens_line2: "tokensOf (ascii ''B[two] --> C[end]'') = [(66, ascii ''two''), (67, ascii ''end'')]"
  by (simp add: ascii_def tokensOf.simps isUpper_def isLineTerminator_def)

lemma sample_tokens:
  "blockTokens sampleBody =
     [(65, ascii ''go''), (66, ascii ''one''), (66, ascii ''two''), (67, ascii ''end'')]"
  by (simp add: blockTokens_def sample_lines tokens_line1 tokens_line2)

text \<open>
  Witness for C5: in the sample reply the id \<open>B\<close> occurs with the labels "one" and "two",
  in this order; the flowchart has one node \<open>B\<close>, labelled "one".
\<close>

theorem extractFlowchart_nodes_witness:
  "flowchartSection sampleReply = Some sampleBody
   \<and> blockTokens sampleBody =
       [(65, ascii ''go''), (66, ascii ''one''), (66, ascii ''two''), (67, ascii ''end'')]
   \<and> (\<exists>fc. extractFlowchart sampleReply = Some fc
         \<and> map n_label (filter (\<lambda>n. n_id n = ascii ''B'') (fc_nodes fc)) = [ascii ''one''])"
proof -
  from extractFlowchart_nodes [OF sample_section]
  obtain fc where fc: "extractFlowchart sampleReply = Some fc"
    and one: "\<forall>t\<in>set (blockTokens sampleBody).
          length (filter (\<lambda>n. n_id n = [fst t]) (fc_nodes fc)) = 1"
    and first: "\<forall>n\<in>set (fc_nodes fc). \<exists>i. n_id n = [i]
          \<and> i \<in> fst ` set (blockTokens sampleBody)
          \<and> map_of (blockTokens sampleBody) i = Some (n_label n)"
    by blast
  have b: "ascii ''B'' = [66]" by (simp add: ascii_def)
  from one have "length (filter (\<lambda>n. n_id n = [66]) (fc_nodes fc)) = 1"
    by (simp add: sample_tokens)
  then obtain n where n: "filter (\<lambda>n. n_id n = [66]) (fc_nodes fc) = [n]"
    by (cases "filter (\<lambda>n. n_id n = [66]) (fc_nodes fc)") auto
  then have "n \<in> set (filter (\<lambda>n. n_id n = [66]) (fc_nodes fc))" by simp
  then have nn: "n \<in> set (fc_nodes fc)" "n_id n = [66]" by simp_all
  with first obtain i where "n_id n = [i]" "map_of (blockTokens sampleBody) i = Some (n_label n)"
    by blast
  with nn have "n_label n = ascii ''one''" by (simp add: sample_tokens)
  with n have lab: "map n_label (filter (\<lambda>n. n_id n = ascii ''B'') (fc_nodes fc)) = [ascii ''one'']"
    by (simp add: b)
  show ?thesis
  proof (intro conjI exI)
    show "flowchartSection sampleReply = Some sampleBody" by (rule sample_section)
    show "blockTokens sampleBody =
       [(65, ascii ''go''), (66, ascii ''one''), (66, ascii ''two''), (67, ascii ''end'')]"
      by (rule sample_tokens)
    show "extractFlowchart sampleReply = Some fc" by (rule fc)
    show "map n_label (filter (\<lambda>n. n_id n = ascii ''B'') (fc_nodes fc)) = [ascii ''one'']"
      by (rule lab)
  qed
qed
section \<open>Proofs: the character diff\<close>

lemma unhex_hexDigit: "d < 16 \<Longrightarrow> unhex (hexDigit d) = Some d"
  by (auto simp: unhex_def hexDigit_def)

lemma hex_recombine:
  assumes "c < 65536"
  shows "4096 * (c div 4096 mod 16) + 256 * (c div 256 mod 16) + 16 * (c div 16 mod 16) + c mod 16 = (c::nat)"
proof -
  have a: "c div 4096 mod 16 = c div 4096" using assms by simp
  have b: "c div 256 mod 16 = c div 256 - 16 * (c div 4096)"
  proof -
    have "c div 4096 = c div 256 div 16" by (simp add: div_mult2_eq)
    then show ?thesis by (simp add: minus_mult_div_eq_mod [symmetric] mult.commute)
  qed
  have c: "c div 16 mod 16 = c div 16 - 16 * (c div 256)"
  proof -
    have "c div 256 = c div 16 div 16" by (simp add: div_mult2_eq)
    then show ?thesis by (simp add: minus_mult_div_eq_mod [symmetric] mult.commute)
  qed
  have d: "c mod 16 = c - 16 * (c div 16)"
    by (simp add: minus_mult_div_eq_mod [symmetric] mult.commute)
  have e: "16 * (c div 4096) \<le> c div 256" "16 * (c div 256) \<le> c div 16" "16 * (c div 16) \<le> c"
  proof -
    have "c div 4096 = c div 256 div 16" by (simp add: div_mult2_eq)
    then show "16 * (c div 4096) \<le> c div 256" by simp
    have "c div 256 = c div 16 div 16" by (simp add: div_mult2_eq)
    then show "16 * (c div 256) \<le> c div 16" by simp
    show "16 * (c div 16) \<le> c" by simp
  qed
  show ?thesis unfolding a b c d using e by linarith
qed

lemma hexDigit_no_quote: "d < 16 \<Longrightarrow> hexDigit d \<noteq> 34 \<and> hexDigit d \<noteq> 92"
  by (auto simp: hexDigit_def)

lemma unquote_unicodeEscape:
  assumes "c < 65536"
  shows "unquoteUnits (unicodeEscape c @ x) = consUnit c (unquoteUnits x)"
proof -
  have m: "c div 4096 mod 16 < 16" "c div 256 mod 16 < 16" "c div 16 mod 16 < 16" "c mod 16 < 16"
    by simp_all
  show ?thesis
    by (simp add: unicodeEscape_def unhex_hexDigit [OF m(1)] unhex_hexDigit [OF m(2)]
          unhex_hexDigit [OF m(3)] unhex_hexDigit [OF m(4)] hex_recombine [OF assms])
qed

lemma unquote_escapeUnit:
  "unquoteUnits (escapeUnit c @ x) = consUnit c (unquoteUnits x)"
proof -
  consider "c = 8" | "c = 9" | "c = 10" | "c = 12" | "c = 13" | "c = 34" | "c = 92"
    | "c \<notin> {8, 9, 10, 12, 13, 34, 92}" "c < 32 \<or> isLeadSurrogate c \<or> isTrailSurrogate c"
    | "c \<notin> {8, 9, 10, 12, 13, 34, 92}" "\<not> (c < 32 \<or> isLeadSurrogate c \<or> isTrailSurrogate c)"
    by blast
  then show ?thesis
  proof cases
    case 8
    then have "c < 65536" by (auto simp: isLeadSurrogate_def isTrailSurrogate_def)
    from unquote_unicodeEscape [OF this] 8 show ?thesis by (simp add: escapeUnit_def)
  next
    case 9
    then show ?thesis by (simp add: escapeUnit_def)
  qed (simp_all add: escapeUnit_def unescape_def)
qed

lemma unquote_quote: "unquoteUnits (quoteUnits s @ 34 # r) = Some (s, r)"
proof (induction s rule: quoteUnits.induct)
  case 1
  then show ?case by simp
next
  case (2 c)
  then show ?case by (simp add: unquote_escapeUnit consUnit_def)
next
  case (3 c d cs)
  show ?case
  proof (cases "isLeadSurrogate c \<and> isTrailSurrogate d")
    case True
    then have ne: "c \<noteq> 34" "c \<noteq> 92" "d \<noteq> 34" "d \<noteq> 92"
      by (auto simp: isLeadSurrogate_def isTrailSurrogate_def)
    from True have q: "quoteUnits (c # d # cs) = c # d # quoteUnits cs" by simp
    from True "3.IH"(1) have ih: "unquoteUnits (quoteUnits cs @ 34 # r) = Some (cs, r)" by simp
    show ?thesis unfolding q using ne by (simp add: ih consUnit_def)
  next
    case False
    then have q: "quoteUnits (c # d # cs) = escapeUnit c @ quoteUnits (d # cs)" by auto
    from False "3.IH"(2) have ih: "unquoteUnits (quoteUnits (d # cs) @ 34 # r) = Some (d # cs, r)"
      by simp
    have "unquoteUnits (quoteUnits (c # d # cs) @ 34 # r)
        = unquoteUnits (escapeUnit c @ (quoteUnits (d # cs) @ 34 # r))"
      unfolding q by simp
    also have "\<dots> = consUnit c (unquoteUnits (quoteUnits (d # cs) @ 34 # r))"
      by (rule unquote_escapeUnit)
    also have "\<dots> = Some (c # d # cs, r)" unfolding ih by (simp add: consUnit_def)
    finally show ?thesis .
  qed
qed

lemma quoteJSONString_inj:
  assumes "quoteJSONString s @ x = quoteJSONString s' @ x'"
  shows "s = s' \<and> x = x'"
proof -
  from assms have "quoteUnits s @ 34 # x = quoteUnits s' @ 34 # x'"
    by (simp add: quoteJSONString_def)
  then have "unquoteUnits (quoteUnits s @ 34 # x) = unquoteUnits (quoteUnits s' @ 34 # x')"
    by simp
  then show ?thesis by (simp add: unquote_quote)
qed

lemma stringifyRelationship_inj:
  assumes "stringifyRelationship r @ x = stringifyRelationship r' @ x'"
  shows "r = r' \<and> x = x'"
proof -
  let ?k = "quoteJSONString (ascii ''type'')"
  from assms have
    "quoteJSONString (rel_to r) @ ([44] @ ?k @ [58] @ quoteJSONString (rel_type r) @ [125] @ x)
     = quoteJSONString (rel_to r') @ ([44] @ ?k @ [58] @ quoteJSONString (rel_type r') @ [125] @ x')"
    by (simp add: stringifyRelationship_def)
  from quoteJSONString_inj [OF this]
  have t: "rel_to r = rel_to r'"
    and "quoteJSONString (rel_type r) @ ([125] @ x) = quoteJSONString (rel_type r') @ ([125] @ x')"
    by simp_all
  from quoteJSONString_inj [OF this(2)] have "rel_type r = rel_type r'" "x = x'" by simp_all
  with t show ?thesis by simp
qed

lemma stringifyRelationship_head: "\<exists>t. stringifyRelationship r = 123 # t"
  by (simp add: stringifyRelationship_def)

lemma joinRelationships_inj:
  "joinRelationships rs @ 93 # x = joinRelationships rs' @ 93 # x' \<Longrightarrow> rs = rs'"
proof (induction rs arbitrary: rs' rule: joinRelationships.induct)
  case 1
  show ?case
  proof (cases rs' rule: joinRelationships.cases)
    case 1
    then show ?thesis by simp
  next
    case (2 r)
    with "1.prems" stringifyRelationship_head [of r] show ?thesis by auto
  next
    case (3 r r' rs)
    with "1.prems" stringifyRelationship_head [of r] show ?thesis by auto
  qed
next
  case (2 r)
  show ?case
  proof (cases rs' rule: joinRelationships.cases)
    case 1
    with "2.prems" stringifyRelationship_head [of r] show ?thesis by auto
  next
    case (2 q)
    with "2.prems" have "stringifyRelationship r @ (93 # x) = stringifyRelationship q @ (93 # x')"
      by simp
    from stringifyRelationship_inj [OF this] 2 show ?thesis by simp
  next
    case (3 q q' qs)
    with "2.prems" have "stringifyRelationship r @ (93 # x)
        = stringifyRelationship q @ (44 # joinRelationships (q' # qs) @ 93 # x')"
      by simp
    from stringifyRelationship_inj [OF this] show ?thesis by simp
  qed
next
  case (3 r r2 rs)
  show ?case
  proof (cases rs' rule: joinRelationships.cases)
    case 1
    with "3.prems" stringifyRelationship_head [of r] show ?thesis by auto
  next
    case (2 q)
    with "3.prems" have "stringifyRelationship r @ (44 # joinRelationships (r2 # rs) @ 93 # x)
        = stringifyRelationship q @ (93 # x')"
      by simp
    from stringifyRelationship_inj [OF this] show ?thesis by simp
  next
    case (3 q q' qs)
    with "3.prems" have "stringifyRelationship r @ (44 # joinRelationships (r2 # rs) @ 93 # x)
        = stringifyRelationship q @ (44 # joinRelationships (q' # qs) @ 93 # x')"
      by simp
    from stringifyRelationship_inj [OF this]
    have "r = q" "joinRelationships (r2 # rs) @ 93 # x = joinRelationships (q' # qs) @ 93 # x'"
      by simp_all
    with "3.IH" 3 show ?thesis by simp
  qed
qed

lemma stringifyRelationships_inj:
  "stringifyRelationships rs = stringifyRelationships rs' \<Longrightarrow> rs = rs'"
  using joinRelationships_inj [of rs "[]" rs' "[]"]
  by (simp add: stringifyRelationships_def)

lemma find_SomeD: "find P xs = Some x \<Longrightarrow> x \<in> set xs \<and> P x"
  by (induction xs) (auto split: if_splits)

lemma changeOf_fields:
  "cc_original (changeOf os m) = find (\<lambda>c. c_id c = c_id m) os"
  "cc_modified (changeOf os m) = Some m"
  "cc_type (changeOf os m) = (if find (\<lambda>c. c_id c = c_id m) os = None then added else modified)"
  by (cases "find (\<lambda>c. c_id c = c_id m) os"; simp add: changeOf_def)+

lemma find_by_id:
  "(find (\<lambda>c. c_id c = i) os = None) = (\<forall>c\<in>set os. c_id c \<noteq> i)"
proof -
  have "(find (\<lambda>c. c_id c = i) os = None) = (\<not> (\<exists>c. c \<in> set os \<and> c_id c = i))"
    by (rule find_None_iff)
  also have "\<dots> = (\<forall>c\<in>set os. c_id c \<noteq> i)" by blast
  finally show ?thesis .
qed

lemma categoriesI:
  "e \<in> set changes \<Longrightarrow> cc_original e = Some c \<or> cc_modified e = Some c \<Longrightarrow>
     cc_type e \<in> categories changes c"
  unfolding categories_def by (rule imageI) simp

lemma categoriesD:
  "k \<in> categories changes c \<Longrightarrow>
     \<exists>e. e \<in> set changes \<and> cc_type e = k \<and> (cc_original e = Some c \<or> cc_modified e = Some c)"
  unfolding categories_def by blast

lemma find_distinct:
  assumes "distinct (map c_id os)" "o' \<in> set os"
  shows "find (\<lambda>c. c_id c = c_id o') os = Some o'"
proof -
  from assms(2) have "find (\<lambda>c. c_id c = c_id o') os \<noteq> None"
    unfolding find_by_id by blast
  then obtain x where x: "find (\<lambda>c. c_id c = c_id o') os = Some x" by blast
  from find_SomeD [OF x] have "x \<in> set os" "c_id x = c_id o'" by simp_all
  with assms have "x = o'" by (meson distinct_map inj_onD)
  with x show ?thesis by simp
qed

lemma allChanges_set:
  "set (allChanges os ms) =
     changeOf os ` set ms
     \<union> (\<lambda>char. \<lparr>cc_type = deleted, cc_original = Some char, cc_modified = None, cc_changes = None\<rparr>)
         ` {o' \<in> set os. \<forall>m\<in>set ms. c_id m \<noteq> c_id o'}"
  by (simp add: allChanges_def characterChanges_def deletedCharacters_def list_ex_iff)

lemma categories_original:
  assumes d: "distinct (map c_id os)" and c: "c \<in> set os"
  shows "categories (allChanges os ms) c =
           {if list_ex (\<lambda>m. c_id m = c_id c) ms then modified else deleted}"
proof (cases "\<exists>m\<in>set ms. c_id m = c_id c")
  case True
  then obtain m where m: "m \<in> set ms" "c_id m = c_id c" by blast
  with find_distinct [OF d c] have f: "find (\<lambda>x. c_id x = c_id m) os = Some c" by simp
  have "changeOf os m \<in> set (allChanges os ms)" using m by (simp add: allChanges_set)
  moreover have "cc_original (changeOf os m) = Some c" "cc_type (changeOf os m) = modified"
    by (simp_all add: changeOf_fields f)
  ultimately have a: "modified \<in> categories (allChanges os ms) c"
    using categoriesI [of "changeOf os m" "allChanges os ms" c] by simp
  have b: "k = modified" if "k \<in> categories (allChanges os ms) c" for k
  proof -
    from categoriesD [OF that] obtain e where e: "e \<in> set (allChanges os ms)" "cc_type e = k"
      "cc_original e = Some c \<or> cc_modified e = Some c"
      by blast
    from e(1) show ?thesis unfolding allChanges_set
    proof
      assume "e \<in> changeOf os ` set ms"
      then obtain m' where m': "m' \<in> set ms" "e = changeOf os m'" by blast
      show ?thesis
      proof (cases "find (\<lambda>x. c_id x = c_id m') os")
        case None
        with e(3) m' have "m' = c" by (simp add: changeOf_fields)
        with None c show ?thesis unfolding find_by_id by blast
      next
        case (Some x)
        with e(2) m' show ?thesis by (simp add: changeOf_fields)
      qed
    next
      assume "e \<in> (\<lambda>char. \<lparr>cc_type = deleted, cc_original = Some char, cc_modified = None, cc_changes = None\<rparr>)
         ` {o' \<in> set os. \<forall>m\<in>set ms. c_id m \<noteq> c_id o'}"
      with e(3) True show ?thesis by auto
    qed
  qed
  from True have "list_ex (\<lambda>m. c_id m = c_id c) ms" by (simp add: list_ex_iff)
  with a b show ?thesis by auto
next
  case False
  have "\<lparr>cc_type = deleted, cc_original = Some c, cc_modified = None, cc_changes = None\<rparr>
          \<in> set (allChanges os ms)"
    using c False by (simp add: allChanges_set)
  then have a: "deleted \<in> categories (allChanges os ms) c"
    using categoriesI [of "\<lparr>cc_type = deleted, cc_original = Some c, cc_modified = None, cc_changes = None\<rparr>"
        "allChanges os ms" c] by simp
  have b: "k = deleted" if "k \<in> categories (allChanges os ms) c" for k
  proof -
    from categoriesD [OF that] obtain e where e: "e \<in> set (allChanges os ms)" "cc_type e = k"
      "cc_original e = Some c \<or> cc_modified e = Some c"
      by blast
    from e(1) show ?thesis unfolding allChanges_set
    proof
      assume "e \<in> changeOf os ` set ms"
      then obtain m' where m': "m' \<in> set ms" "e = changeOf os m'" by blast
      from e(3) show ?thesis
      proof
        assume "cc_original e = Some c"
        with m' have "find (\<lambda>x. c_id x = c_id m') os = Some c" by (simp add: changeOf_fields)
        from find_SomeD [OF this] have "c_id c = c_id m'" by simp
        with m'(1) False show ?thesis by metis
      next
        assume "cc_modified e = Some c"
        with m' have "m' = c" by (simp add: changeOf_fields)
        with m'(1) False show ?thesis by metis
      qed
    next
      assume "e \<in> (\<lambda>char. \<lparr>cc_type = deleted, cc_original = Some char, cc_modified = None, cc_changes = None\<rparr>)
         ` {o' \<in> set os. \<forall>m\<in>set ms. c_id m \<noteq> c_id o'}"
      with e(2) show ?thesis by auto
    qed
  qed
  from False have "\<not> list_ex (\<lambda>m. c_id m = c_id c) ms" by (simp add: list_ex_iff)
  with a b show ?thesis by auto
qed

lemma categories_modified:
  assumes c: "c \<in> set ms"
  shows "categories (allChanges os ms) c =
           {if list_ex (\<lambda>o'. c_id o' = c_id c) os then modified else added}"
proof -
  let ?k = "if find (\<lambda>x. c_id x = c_id c) os = None then added else modified"
  have "changeOf os c \<in> set (allChanges os ms)" using c by (simp add: allChanges_set)
  moreover have "cc_modified (changeOf os c) = Some c" "cc_type (changeOf os c) = ?k"
    by (simp_all add: changeOf_fields)
  ultimately have a: "?k \<in> categories (allChanges os ms) c"
    using categoriesI [of "changeOf os c" "allChanges os ms" c] by simp
  have b: "k = ?k" if "k \<in> categories (allChanges os ms) c" for k
  proof -
    from categoriesD [OF that] obtain e where e: "e \<in> set (allChanges os ms)" "cc_type e = k"
      "cc_original e = Some c \<or> cc_modified e = Some c"
      by blast
    from e(1) show ?thesis unfolding allChanges_set
    proof
      assume "e \<in> changeOf os ` set ms"
      then obtain m' where m': "m' \<in> set ms" "e = changeOf os m'" by blast
      from e(3) show ?thesis
      proof
        assume "cc_original e = Some c"
        with m' have f: "find (\<lambda>x. c_id x = c_id m') os = Some c" by (simp add: changeOf_fields)
        from find_SomeD [OF f] have "c \<in> set os" by simp
        then have "find (\<lambda>x. c_id x = c_id c) os \<noteq> None" unfolding find_by_id by blast
        with e(2) m' f show ?thesis by (simp add: changeOf_fields)
      next
        assume "cc_modified e = Some c"
        with m' have "m' = c" by (simp add: changeOf_fields)
        with e(2) m' show ?thesis by (simp add: changeOf_fields)
      qed
    next
      assume "e \<in> (\<lambda>char. \<lparr>cc_type = deleted, cc_original = Some char, cc_modified = None, cc_changes = None\<rparr>)
         ` {o' \<in> set os. \<forall>m\<in>set ms. c_id m \<noteq> c_id o'}"
      with e(3) c show ?thesis by auto
    qed
  qed
  have "(find (\<lambda>x. c_id x = c_id c) os = None) = (\<not> list_ex (\<lambda>o'. c_id o' = c_id c) os)"
    by (simp add: find_by_id list_ex_iff)
  with a b show ?thesis by auto
qed

lemma stringifyRelationships_eq_iff:
  "(stringifyRelationships a = stringifyRelationships b) = (a = b)"
proof
  assume "stringifyRelationships a = stringifyRelationships b"
  then show "a = b" by (rule stringifyRelationships_inj)
next
  assume "a = b"
  then show "stringifyRelationships a = stringifyRelationships b" by simp
qed

lemma modified_entry:
  assumes "e \<in> set (allChanges os ms)" "cc_type e = modified"
  shows "\<exists>o' m. cc_original e = Some o' \<and> cc_modified e = Some m
           \<and> o' \<in> set os \<and> m \<in> set ms \<and> c_id o' = c_id m
           \<and> cc_changes e = Some
               \<lparr>chg_name = (c_name o' \<noteq> c_name m),
                chg_description = (c_description o' \<noteq> c_description m),
                chg_relationships = (c_relationships o' \<noteq> c_relationships m)\<rparr>"
proof -
  from assms obtain m where m: "m \<in> set ms" "e = changeOf os m"
    unfolding allChanges_set by auto
  with assms(2) obtain x where f: "find (\<lambda>c. c_id c = c_id m) os = Some x"
    by (cases "find (\<lambda>c. c_id c = c_id m) os") (simp_all add: changeOf_fields)
  from find_SomeD [OF f] have x: "x \<in> set os" "c_id x = c_id m" by simp_all
  have e: "e = \<lparr>cc_type = modified, cc_original = Some x, cc_modified = Some m,
           cc_changes = Some
             \<lparr>chg_name = (c_name x \<noteq> c_name m),
              chg_description = (c_description x \<noteq> c_description m),
              chg_relationships = (c_relationships x \<noteq> c_relationships m)\<rparr>\<rparr>"
    by (simp add: m(2) changeOf_def f stringifyRelationships_eq_iff)
  show ?thesis
  proof (intro exI conjI)
    show "cc_original e = Some x" by (simp add: e)
    show "cc_modified e = Some m" by (simp add: e)
    show "x \<in> set os" by (rule x(1))
    show "m \<in> set ms" by (rule m(1))
    show "c_id x = c_id m" by (rule x(2))
    show "cc_changes e = Some
               \<lparr>chg_name = (c_name x \<noteq> c_name m),
                chg_description = (c_description x \<noteq> c_description m),
                chg_relationships = (c_relationships x \<noteq> c_relationships m)\<rparr>"
      by (simp add: e)
  qed
qed

lemma charactersFrom_ids:
  "c_id ` set (charactersFrom f i bs) \<subseteq> (\<lambda>k. ascii ''char-'' @ string_of_nat k) ` {i..}"
proof (induction bs arbitrary: i)
  case Nil
  then show ?case by simp
next
  case (Cons b bs)
  have "c_id ` set (charactersFrom f (i + 1) bs)
          \<subseteq> (\<lambda>k. ascii ''char-'' @ string_of_nat k) ` {i..}"
    using Cons.IH [of "i + 1"] by auto
  then show ?case by (cases "f b") auto
qed

lemma extractCharacters_ids_distinct: "distinct (map c_id (charactersFrom f i bs))"
proof (induction bs arbitrary: i)
  case Nil
  then show ?case by simp
next
  case (Cons b bs)
  have "ascii ''char-'' @ string_of_nat i \<notin> c_id ` set (charactersFrom f (i + 1) bs)"
  proof
    assume "ascii ''char-'' @ string_of_nat i \<in> c_id ` set (charactersFrom f (i + 1) bs)"
    with charactersFrom_ids [of f "i + 1" bs]
    obtain k where "i + 1 \<le> k" "ascii ''char-'' @ string_of_nat i = ascii ''char-'' @ string_of_nat k"
      by auto
    then have "i + 1 \<le> k" "i = k" using string_of_nat_inj by simp_all
    then show False by simp
  qed
  with Cons.IH [of "i + 1"] show ?case by (cases "f b") auto
qed

text \<open>
  Claim C6. When the original characters have pairwise distinct ids (as the lists that
  \<^verbatim>\<open>extractCharacters\<close> builds have), every original character is in exactly one
  category: modified if a modified character has its id, deleted otherwise; every
  modified character is in exactly one category: modified if an original character has
  its id, added otherwise; and every entry of type modified pairs an original with a
  modified character of the same id and carries the three flags, each true exactly when
  the two characters differ in the name, in the description, in the relationships.
\<close>

theorem character_diff:
  assumes "distinct (map c_id originalCharacters)"
  shows "(\<forall>c\<in>set originalCharacters.
            categories (allChanges originalCharacters modifiedCharacters) c =
              {if list_ex (\<lambda>m. c_id m = c_id c) modifiedCharacters then modified else deleted})
       \<and> (\<forall>c\<in>set modifiedCharacters.
            categories (allChanges originalCharacters modifiedCharacters) c =
              {if list_ex (\<lambda>o'. c_id o' = c_id c) originalCharacters then modified else added})
       \<and> (\<forall>e\<in>set (allChanges originalCharacters modifiedCharacters).
            cc_type e = modified \<longrightarrow>
              (\<exists>o' m. cc_original e = Some o' \<and> cc_modified e = Some m
                 \<and> o' \<in> set originalCharacters \<and> m \<in> set modifiedCharacters
                 \<and> c_id o' = c_id m
                 \<and> cc_changes e = Some
                     \<lparr>chg_name = (c_name o' \<noteq> c_name m),
                      chg_description = (c_description o' \<noteq> c_description m),
                      chg_relationships = (c_relationships o' \<noteq> c_relationships m)\<rparr>))"
  using assms categories_original categories_modified modified_entry by blast

lemma sample_ids_distinct: "distinct (map c_id sampleOriginals)"
  by (simp add: sampleOriginals_def sampleCharacter_def ascii_def)

text \<open>
  Witness for C6: Ann is renamed to Anna, Bob is removed and Cy is added. Ann and Anna
  are in the category modified, Bob in deleted, Cy in added.
\<close>

theorem character_diff_witness:
  "distinct (map c_id sampleOriginals)
   \<and> sampleCharacter ''char-0'' ''Ann'' \<in> set sampleOriginals
   \<and> sampleCharacter ''char-1'' ''Bob'' \<in> set sampleOriginals
   \<and> sampleCharacter ''17'' ''Cy'' \<in> set sampleModified
   \<and> categories (allChanges sampleOriginals sampleModified) (sampleCharacter ''char-0'' ''Ann'')
       = {modified}
   \<and> categories (allChanges sampleOriginals sampleModified) (sampleCharacter ''char-1'' ''Bob'')
       = {deleted}
   \<and> categories (allChanges sampleOriginals sampleModified) (sampleCharacter ''17'' ''Cy'')
       = {added}"
proof -
  note t = character_diff [OF sample_ids_distinct, of sampleModified]
  have a: "sampleCharacter ''char-0'' ''Ann'' \<in> set sampleOriginals"
    and b: "sampleCharacter ''char-1'' ''Bob'' \<in> set sampleOriginals"
    and c: "sampleCharacter ''17'' ''Cy'' \<in> set sampleModified"
    by (simp_all add: sampleOriginals_def sampleModified_def)
  from t a have "categories (allChanges sampleOriginals sampleModified) (sampleCharacter ''char-0'' ''Ann'')
      = {if list_ex (\<lambda>m. c_id m = c_id (sampleCharacter ''char-0'' ''Ann'')) sampleModified
         then modified else deleted}"
    by blast
  then have a': "categories (allChanges sampleOriginals sampleModified) (sampleCharacter ''char-0'' ''Ann'')
      = {modified}"
    by (simp add: sampleModified_def sampleCharacter_def ascii_def)
  from t b have "categories (allChanges sampleOriginals sampleModified) (sampleCharacter ''char-1'' ''Bob'')
      = {if list_ex (\<lambda>m. c_id m = c_id (sampleCharacter ''char-1'' ''Bob'')) sampleModified
         then modified else deleted}"
    by blast
  then have b': "categories (allChanges sampleOriginals sampleModified) (sampleCharacter ''char-1'' ''Bob'')
      = {deleted}"
    by (simp add: sampleModified_def sampleCharacter_def ascii_def)
  from t c have "categories (allChanges sampleOriginals sampleModified) (sampleCharacter ''17'' ''Cy'')
      = {if list_ex (\<lambda>o'. c_id o' = c_id (sampleCharacter ''17'' ''Cy'')) sampleOriginals
         then modified else added}"
    by blast
  then have c': "categories (allChanges sampleOriginals sampleModified) (sampleCharacter ''17'' ''Cy'')
      = {added}"
    by (simp add: sampleOriginals_def sampleCharacter_def ascii_def)
  from sample_ids_distinct a b c a' b' c' show ?thesis by simp
qed
section \<open>Proofs: the service clients\<close>























lemma isSpace_simps [simp]:
  "isSpace 125 = False" "isSpace 115 = False" "isSpace 98 = False" "isSpace 91 = False"
  "isSpace 120 = False" "isSpace 93 = False" "isSpace 49 = False"
  by (simp_all add: isSpace_def)









lemma convert_resolves: "\<exists>r. convertToReadableText reply t = Inr r"
  by (cases "tryConvert reply") (simp_all add: convertToReadableText_def)

lemma tryConvert_rejected: "isl reply \<Longrightarrow> isl (tryConvert reply)"
  by (cases reply) (simp_all add: tryConvert_def andThen_def)

lemma tryConvert_unreadable:
  "reply = Inr data \<Longrightarrow> isl (candidateText data) \<Longrightarrow> isl (tryConvert reply)"
  by (cases "candidateText data") (simp_all add: tryConvert_def andThen_def)

lemma tryConvert_no_string:
  "reply = Inr data \<Longrightarrow> candidateText data = Inr v \<Longrightarrow> \<forall>s. v \<noteq> Some (JString s) \<Longrightarrow>
     isl (tryConvert reply)"
proof -
  assume a: "reply = Inr data" "candidateText data = Inr v" "\<forall>s. v \<noteq> Some (JString s)"
  show ?thesis
  proof (cases v)
    case None
    with a show ?thesis by (simp add: tryConvert_def andThen_def)
  next
    case (Some x)
    with a show ?thesis by (cases x) (simp_all add: tryConvert_def andThen_def)
  qed
qed

text \<open>
  Claim C10. \<^verbatim>\<open>convertToReadableText\<close> always resolves. Its \<^verbatim>\<open>try\<close> block fails when
  the request is rejected, when the text cannot be read out of the response, and when
  what is read is no string; whenever it fails, the function resolves with the input
  text, and \<^verbatim>\<open>generateAudio\<close> goes on with the preprocessed input text: its outcome is
  that of the two requests to the speech service alone.
\<close>

theorem convertToReadableText_falls_back:
  "(\<exists>r. convertToReadableText reply t = Inr r)
   \<and> (isl reply \<longrightarrow> isl (tryConvert reply))
   \<and> (\<forall>data. reply = Inr data \<and> isl (candidateText data) \<longrightarrow> isl (tryConvert reply))
   \<and> (\<forall>data v. reply = Inr data \<and> candidateText data = Inr v \<and> (\<forall>s. v \<noteq> Some (JString s))
         \<longrightarrow> isl (tryConvert reply))
   \<and> (isl (tryConvert reply) \<longrightarrow>
         convertToReadableText reply t = Inr t
         \<and> generateAudio service reply t speakerId =
             synthesize service (preprocessText t) speakerId)"
proof (intro conjI impI allI)
  show "\<exists>r. convertToReadableText reply t = Inr r" by (rule convert_resolves)
next
  assume "isl reply"
  then show "isl (tryConvert reply)" by (rule tryConvert_rejected)
next
  fix data
  assume "reply = Inr data \<and> isl (candidateText data)"
  then show "isl (tryConvert reply)" using tryConvert_unreadable by blast
next
  fix data v
  assume "reply = Inr data \<and> candidateText data = Inr v \<and> (\<forall>s. v \<noteq> Some (JString s))"
  then show "isl (tryConvert reply)" using tryConvert_no_string by blast
next
  assume "isl (tryConvert reply)"
  then obtain e where e: "tryConvert reply = Inl e" by (cases "tryConvert reply") simp_all
  then show "convertToReadableText reply t = Inr t" by (simp add: convertToReadableText_def)
next
  assume "isl (tryConvert reply)"
  then obtain e where e: "tryConvert reply = Inl e" by (cases "tryConvert reply") simp_all
  then show "generateAudio service reply t speakerId =
             synthesize service (preprocessText t) speakerId"
    by (simp add: generateAudio_def convertToReadableText_def andThen_def)
qed

lemma synthesize_echo: "speaker \<noteq> 13 \<Longrightarrow> synthesize echoService p speaker = Inr p"
  by (simp add: synthesize_def echoService_def andThen_def)

text \<open>
  Witness for C10: the conversion request is rejected and the speech service answers;
  the audio is made from the preprocessed input text.
\<close>

theorem convertToReadableText_falls_back_witness:
  "isl (Inl NetworkError :: error + json)
   \<and> isl (tryConvert (Inl NetworkError))
   \<and> convertToReadableText (Inl NetworkError) (ascii ''a b'') = Inr (ascii ''a b'')
   \<and> generateAudio echoService (Inl NetworkError) (ascii ''a b'') 1 =
       Inr (preprocessText (ascii ''a b''))"
  using convertToReadableText_falls_back
          [of "Inl NetworkError" "ascii ''a b''" echoService 1]
  by (simp add: synthesize_echo)

section \<open>Proofs: audio playback\<close>

lemma current_state:
  "fst (getCurrentAudioState i audioStates) =
     (case audioStates (versionKey i) of
        None \<Rightarrow> \<lparr>audioPlayer = newAudioPlayer, playState = initial, isGenerating = False\<rparr>
      | Some s \<Rightarrow> s)"
  by (simp add: getCurrentAudioState_def Let_def split: option.splits)

lemma current_table:
  "(snd (getCurrentAudioState i audioStates))(versionKey i \<mapsto> x) =
     audioStates(versionKey i \<mapsto> x)"
  by (simp add: getCurrentAudioState_def Let_def split: option.splits)

lemma play_unfold:
  assumes "isAudioEnabled t" "fst (getCurrentAudioState i audioStates) = s"
  shows "handlePlayAudio generate decode now t i audioStates =
     (if playState s = playing
      then ([Pause],
            audioStates(versionKey i \<mapsto>
              s\<lparr>audioPlayer := pause now (audioPlayer s), playState := paused\<rparr>))
      else if getDuration (audioPlayer s) = 0
      then
        (case generate t (if i = 0 then 13 else 1) of
           Inl e \<Rightarrow>
             ([Generate t (if i = 0 then 13 else 1)],
              audioStates(versionKey i \<mapsto> s\<lparr>isGenerating := False, playState := initial\<rparr>))
         | Inr audioData \<Rightarrow>
             (case loadAudio decode audioData (audioPlayer s) of
                (Some e, loaded) \<Rightarrow>
                  ([Generate t (if i = 0 then 13 else 1), Load],
                   audioStates(versionKey i \<mapsto>
                     s\<lparr>audioPlayer := loaded, isGenerating := False, playState := initial\<rparr>))
              | (None, loaded) \<Rightarrow>
                  ([Generate t (if i = 0 then 13 else 1), Load, Play],
                   audioStates(versionKey i \<mapsto>
                     s\<lparr>audioPlayer := play now loaded, playState := playing\<rparr>))))
      else ([Play],
            audioStates(versionKey i \<mapsto>
              s\<lparr>audioPlayer := play now (audioPlayer s), playState := playing\<rparr>)))"
proof -
  from assms(1) have ne: "t \<noteq> []" by (auto simp: isAudioEnabled_def)
  obtain st where g: "getCurrentAudioState i audioStates = (s, st)"
    using assms(2) by (cases "getCurrentAudioState i audioStates") simp
  have tb: "st(versionKey i \<mapsto> x) = audioStates(versionKey i \<mapsto> x)" for x
    using current_table [of i audioStates x] g by simp
  note defs = handlePlayAudio_def g Let_def tb
  show ?thesis
  proof (cases "playState s = playing")
    case True
    with assms(1) show ?thesis by (simp add: defs split del: if_split)
  next
    case np: False
    show ?thesis
    proof (cases "getDuration (audioPlayer s) = 0")
      case False
      with assms(1) ne np show ?thesis by (simp add: defs split del: if_split)
    next
      case d: True
      show ?thesis
      proof (cases "generate t (if i = 0 then 13 else 1)")
        case (Inl e)
        with assms(1) ne np d show ?thesis by (simp add: defs split del: if_split)
      next
        case (Inr audioData)
        obtain e loaded where l: "loadAudio decode audioData (audioPlayer s) = (e, loaded)"
          by (cases "loadAudio decode audioData (audioPlayer s)")
        with assms(1) ne np d Inr show ?thesis
          by (cases e) (simp_all add: defs split del: if_split)
      qed
    qed
  qed
qed

lemma enabled_range: "isAudioEnabled t = (0 < length t \<and> length t \<le> 500)"
  by (simp add: isAudioEnabled_def MAX_TEXT_LENGTH_def)

lemma play_acts:
  "(fst (handlePlayAudio generate decode now t i audioStates) \<noteq> []) = isAudioEnabled t"
proof (cases "isAudioEnabled t")
  case False
  then show ?thesis by (simp add: handlePlayAudio_def)
next
  case True
  from True show ?thesis
    by (simp add: play_unfold [OF True refl] split: sum.splits prod.splits option.splits)
qed

lemma play_resumes:
  "audioContext p \<Longrightarrow> audioBuffer p \<noteq> None \<Longrightarrow>
     play now p = p\<lparr>sourceNode := Some Started, startTime := now - offset p, isPlaying := True\<rparr>"
  by (auto simp add: play_def stopSource_def)

lemma pause_keeps_position:
  "audioContext p \<Longrightarrow> isPlaying p \<Longrightarrow>
     pause now p = p\<lparr>offset := now - startTime p,
                     sourceNode := map_option (\<lambda>n. Stopped) (sourceNode p),
                     isPlaying := False\<rparr>"
  by (simp add: pause_def stopSource_def getCurrentTime_def)

text \<open>
  Claim C9. \<^verbatim>\<open>handlePlayAudio\<close> acts (it generates, plays or pauses) exactly when the
  text has more than 0 and at most 500 code units; for any other text it makes no call
  and leaves the table of audio states as it is. For a text in the range, with \<open>s\<close> the
  state of the tab (a new one when the table has none): when \<open>s\<close> is playing, the player
  is paused; when it is not and a buffer with a duration is loaded, the player plays;
  when no such buffer is loaded, \<^verbatim>\<open>generateAudio\<close> is called with the text and the
  speaker of the tab, its result is loaded and played, and a failure of the generation
  or of the decoding leaves the state \<open>initial\<close>. Playing starts a source at the offset
  of the player, and pausing stores the position reached as the offset.
\<close>

theorem audio_enabled_range:
  "isAudioEnabled t = (0 < length t \<and> length t \<le> 500)
   \<and> (fst (handlePlayAudio generate decode now t versionIndex audioStates) \<noteq> [])
       = (0 < length t \<and> length t \<le> 500)
   \<and> (\<not> (0 < length t \<and> length t \<le> 500) \<longrightarrow>
        handlePlayAudio generate decode now t versionIndex audioStates = ([], audioStates))
   \<and> fst (getCurrentAudioState versionIndex audioStates) =
       (case audioStates (versionKey versionIndex) of
          None \<Rightarrow> \<lparr>audioPlayer = newAudioPlayer, playState = initial, isGenerating = False\<rparr>
        | Some s \<Rightarrow> s)
   \<and> (\<forall>s. 0 < length t \<and> length t \<le> 500
          \<and> fst (getCurrentAudioState versionIndex audioStates) = s \<longrightarrow>
        (playState s = playing \<longrightarrow>
           handlePlayAudio generate decode now t versionIndex audioStates =
             ([Pause],
              audioStates(versionKey versionIndex \<mapsto>
                s\<lparr>audioPlayer := pause now (audioPlayer s), playState := paused\<rparr>)))
        \<and> (playState s \<noteq> playing \<and> getDuration (audioPlayer s) \<noteq> 0 \<longrightarrow>
           handlePlayAudio generate decode now t versionIndex audioStates =
             ([Play],
              audioStates(versionKey versionIndex \<mapsto>
                s\<lparr>audioPlayer := play now (audioPlayer s), playState := playing\<rparr>)))
        \<and> (playState s \<noteq> playing \<and> getDuration (audioPlayer s) = 0 \<longrightarrow>
           (\<forall>e. generate t (if versionIndex = 0 then 13 else 1) = Inl e \<longrightarrow>
              handlePlayAudio generate decode now t versionIndex audioStates =
                ([Generate t (if versionIndex = 0 then 13 else 1)],
                 audioStates(versionKey versionIndex \<mapsto>
                   s\<lparr>isGenerating := False, playState := initial\<rparr>)))
           \<and> (\<forall>audioData e. generate t (if versionIndex = 0 then 13 else 1) = Inr audioData
                 \<and> decode audioData = Inl e \<longrightarrow>
              handlePlayAudio generate decode now t versionIndex audioStates =
                ([Generate t (if versionIndex = 0 then 13 else 1), Load],
                 audioStates(versionKey versionIndex \<mapsto>
                   s\<lparr>audioPlayer := (audioPlayer s)\<lparr>audioContext := True\<rparr>,
                     isGenerating := False, playState := initial\<rparr>)))
           \<and> (\<forall>audioData buffer. generate t (if versionIndex = 0 then 13 else 1) = Inr audioData
                 \<and> decode audioData = Inr buffer \<longrightarrow>
              handlePlayAudio generate decode now t versionIndex audioStates =
                ([Generate t (if versionIndex = 0 then 13 else 1), Load, Play],
                 audioStates(versionKey versionIndex \<mapsto>
                   s\<lparr>audioPlayer :=
                       play now ((audioPlayer s)\<lparr>audioContext := True,
                                                 audioBuffer := Some buffer, offset := 0\<rparr>),
                     playState := playing\<rparr>)))))
   \<and> (\<forall>p. audioContext p \<and> audioBuffer p \<noteq> None \<longrightarrow>
         play now p =
           p\<lparr>sourceNode := Some Started, startTime := now - offset p, isPlaying := True\<rparr>)
   \<and> (\<forall>p. audioContext p \<and> isPlaying p \<longrightarrow>
         pause now p =
           p\<lparr>offset := now - startTime p,
             sourceNode := map_option (\<lambda>n. Stopped) (sourceNode p), isPlaying := False\<rparr>)"
proof -
  let ?h = "handlePlayAudio generate decode now t versionIndex audioStates"
  let ?sp = "if versionIndex = 0 then 13 else (1::nat)"
  have r: "isAudioEnabled t = (0 < length t \<and> length t \<le> 500)" by (rule enabled_range)
  have a: "(fst ?h \<noteq> []) = (0 < length t \<and> length t \<le> 500)"
    unfolding r [symmetric] by (rule play_acts)
  have b: "\<not> (0 < length t \<and> length t \<le> 500) \<longrightarrow> ?h = ([], audioStates)"
    unfolding r [symmetric] by (simp add: handlePlayAudio_def)
  have c: "\<forall>s. 0 < length t \<and> length t \<le> 500
          \<and> fst (getCurrentAudioState versionIndex audioStates) = s \<longrightarrow>
        (playState s = playing \<longrightarrow>
           ?h = ([Pause],
              audioStates(versionKey versionIndex \<mapsto>
                s\<lparr>audioPlayer := pause now (audioPlayer s), playState := paused\<rparr>)))
        \<and> (playState s \<noteq> playing \<and> getDuration (audioPlayer s) \<noteq> 0 \<longrightarrow>
           ?h = ([Play],
              audioStates(versionKey versionIndex \<mapsto>
                s\<lparr>audioPlayer := play now (audioPlayer s), playState := playing\<rparr>)))
        \<and> (playState s \<noteq> playing \<and> getDuration (audioPlayer s) = 0 \<longrightarrow>
           (\<forall>e. generate t ?sp = Inl e \<longrightarrow>
              ?h = ([Generate t ?sp],
                 audioStates(versionKey versionIndex \<mapsto>
                   s\<lparr>isGenerating := False, playState := initial\<rparr>)))
           \<and> (\<forall>audioData e. generate t ?sp = Inr audioData
                 \<and> decode audioData = Inl e \<longrightarrow>
              ?h = ([Generate t ?sp, Load],
                 audioStates(versionKey versionIndex \<mapsto>
                   s\<lparr>audioPlayer := (audioPlayer s)\<lparr>audioContext := True\<rparr>,
                     isGenerating := False, playState := initial\<rparr>)))
           \<and> (\<forall>audioData buffer. generate t ?sp = Inr audioData
                 \<and> decode audioData = Inr buffer \<longrightarrow>
              ?h = ([Generate t ?sp, Load, Play],
                 audioStates(versionKey versionIndex \<mapsto>
                   s\<lparr>audioPlayer :=
                       play now ((audioPlayer s)\<lparr>audioContext := True,
                                                 audioBuffer := Some buffer, offset := 0\<rparr>),
                     playState := playing\<rparr>))))"
  proof (intro allI impI)
    fix s
    assume h: "0 < length t \<and> length t \<le> 500
          \<and> fst (getCurrentAudioState versionIndex audioStates) = s"
    then have en: "isAudioEnabled t" by (simp add: r)
    from h have s: "fst (getCurrentAudioState versionIndex audioStates) = s" by simp
    note u = play_unfold [OF en s, of generate decode now]
    show "(playState s = playing \<longrightarrow>
           ?h = ([Pause],
              audioStates(versionKey versionIndex \<mapsto>
                s\<lparr>audioPlayer := pause now (audioPlayer s), playState := paused\<rparr>)))
        \<and> (playState s \<noteq> playing \<and> getDuration (audioPlayer s) \<noteq> 0 \<longrightarrow>
           ?h = ([Play],
              audioStates(versionKey versionIndex \<mapsto>
                s\<lparr>audioPlayer := play now (audioPlayer s), playState := playing\<rparr>)))
        \<and> (playState s \<noteq> playing \<and> getDuration (audioPlayer s) = 0 \<longrightarrow>
           (\<forall>e. generate t ?sp = Inl e \<longrightarrow>
              ?h = ([Generate t ?sp],
                 audioStates(versionKey versionIndex \<mapsto>
                   s\<lparr>isGenerating := False, playState := initial\<rparr>)))
           \<and> (\<forall>audioData e. generate t ?sp = Inr audioData
                 \<and> decode audioData = Inl e \<longrightarrow>
              ?h = ([Generate t ?sp, Load],
                 audioStates(versionKey versionIndex \<mapsto>
                   s\<lparr>audioPlayer := (audioPlayer s)\<lparr>audioContext := True\<rparr>,
                     isGenerating := False, playState := initial\<rparr>)))
           \<and> (\<forall>audioData buffer. generate t ?sp = Inr audioData
                 \<and> decode audioData = Inr buffer \<longrightarrow>
              ?h = ([Generate t ?sp, Load, Play],
                 audioStates(versionKey versionIndex \<mapsto>
                   s\<lparr>audioPlayer :=
                       play now ((audioPlayer s)\<lparr>audioContext := True,
                                                 audioBuffer := Some buffer, offset := 0\<rparr>),
                     playState := playing\<rparr>))))"
      unfolding u by (simp add: loadAudio_def Let_def split del: if_split)
  qed
  have d: "\<forall>p. audioContext p \<and> audioBuffer p \<noteq> None \<longrightarrow>
         play now p =
           p\<lparr>sourceNode := Some Started, startTime := now - offset p, isPlaying := True\<rparr>"
    by (simp add: play_resumes)
  have e: "\<forall>p. audioContext p \<and> isPlaying p \<longrightarrow>
         pause now p =
           p\<lparr>offset := now - startTime p,
             sourceNode := map_option (\<lambda>n. Stopped) (sourceNode p), isPlaying := False\<rparr>"
    by (simp add: pause_keeps_position)
  from r a b c d e current_state [of versionIndex audioStates] show ?thesis
    by (intro conjI)
qed

lemma key1: "versionKey 1 = ascii ''v2''"
  by (simp add: versionKey_def string_of_int_def string_of_nat.simps ascii_def)

lemma key0: "versionKey 0 = ascii ''v1''"
  by (simp add: versionKey_def string_of_int_def string_of_nat.simps ascii_def)

lemma paused_v1:
  "pausedStates (ascii ''v1'') =
     Some \<lparr>audioPlayer = pausedPlayer, playState = paused, isGenerating = False\<rparr>"
  by (simp add: pausedStates_def)

lemma paused_v2: "pausedStates (ascii ''v2'') = None"
  by (simp add: pausedStates_def ascii_def)

text \<open>
  Witness for C9, on the table in which the first tab is paused at five seconds. A text
  of 501 characters: nothing happens. The text "a" on the first tab at time 7: the
  player plays again, from the offset 5. The same on the second tab, which has no state
  yet: the audio is generated with speaker 1, loaded and played.
\<close>

theorem audio_enabled_range_witness:
  "length longText = 501
   \<and> handlePlayAudio sampleGenerate sampleDecode 7 longText 0 pausedStates = ([], pausedStates)
   \<and> handlePlayAudio sampleGenerate sampleDecode 7 (ascii ''a'') 0 pausedStates =
       ([Play],
        pausedStates(ascii ''v1'' \<mapsto>
          \<lparr>audioPlayer = pausedPlayer\<lparr>sourceNode := Some Started, startTime := 2,
                                       isPlaying := True\<rparr>,
           playState = playing, isGenerating = False\<rparr>))
   \<and> handlePlayAudio sampleGenerate sampleDecode 7 (ascii ''a'') 1 pausedStates =
       ([Generate (ascii ''a'') 1, Load, Play],
        pausedStates(ascii ''v2'' \<mapsto>
          \<lparr>audioPlayer =
             \<lparr>audioContext = True,
              audioBuffer = Some \<lparr>samples = 1 # ascii ''a'', duration = 10\<rparr>,
              sourceNode = Some Started, startTime = 7, offset = 0, isPlaying = True\<rparr>,
           playState = playing, isGenerating = False\<rparr>))"
proof -
  note t1 = audio_enabled_range [of longText sampleGenerate sampleDecode 7 0 pausedStates]
  note t2 = audio_enabled_range [of "ascii ''a''" sampleGenerate sampleDecode 7 0 pausedStates]
  note t3 = audio_enabled_range [of "ascii ''a''" sampleGenerate sampleDecode 7 1 pausedStates]
  have l: "length longText = 501" by (simp add: longText_def)
  have la: "length (ascii ''a'') = 1" by (simp add: ascii_def)
  have d: "getDuration pausedPlayer = 10" "getDuration newAudioPlayer = 0"
    by (simp_all add: getDuration_def pausedPlayer_def sampleBuffer_def newAudioPlayer_def)
  from t1 l have a: "handlePlayAudio sampleGenerate sampleDecode 7 longText 0 pausedStates =
      ([], pausedStates)"
    by simp
  from t2 have "handlePlayAudio sampleGenerate sampleDecode 7 (ascii ''a'') 0 pausedStates =
       ([Play],
        pausedStates(versionKey 0 \<mapsto>
          \<lparr>audioPlayer = pausedPlayer, playState = paused, isGenerating = False\<rparr>
            \<lparr>audioPlayer := play 7 pausedPlayer, playState := playing\<rparr>))"
    by (simp add: la key0 paused_v1 d)
  then have b: "handlePlayAudio sampleGenerate sampleDecode 7 (ascii ''a'') 0 pausedStates =
       ([Play],
        pausedStates(ascii ''v1'' \<mapsto>
          \<lparr>audioPlayer = pausedPlayer\<lparr>sourceNode := Some Started, startTime := 2,
                                       isPlaying := True\<rparr>,
           playState = playing, isGenerating = False\<rparr>))"
    by (simp add: key0 play_def stopSource_def pausedPlayer_def)
  from t3 have "handlePlayAudio sampleGenerate sampleDecode 7 (ascii ''a'') 1 pausedStates =
       ([Generate (ascii ''a'') 1, Load, Play],
        pausedStates(versionKey 1 \<mapsto>
          \<lparr>audioPlayer = newAudioPlayer, playState = initial, isGenerating = False\<rparr>
            \<lparr>audioPlayer :=
               play 7 (newAudioPlayer\<lparr>audioContext := True,
                          audioBuffer := Some \<lparr>samples = 1 # ascii ''a'', duration = 10\<rparr>,
                          offset := 0\<rparr>),
             playState := playing\<rparr>))"
    by (simp add: la key1 paused_v2 d sampleGenerate_def sampleDecode_def)
  then have c: "handlePlayAudio sampleGenerate sampleDecode 7 (ascii ''a'') 1 pausedStates =
       ([Generate (ascii ''a'') 1, Load, Play],
        pausedStates(ascii ''v2'' \<mapsto>
          \<lparr>audioPlayer =
             \<lparr>audioContext = True,
              audioBuffer = Some \<lparr>samples = 1 # ascii ''a'', duration = 10\<rparr>,
              sourceNode = Some Started, startTime = 7, offset = 0, isPlaying = True\<rparr>,
           playState = playing, isGenerating = False\<rparr>))"
    by (simp add: key1 play_def stopSource_def newAudioPlayer_def)
  from l a b c show ?thesis by simp
qed

lemma string_of_int_inj: "string_of_int i = string_of_int j \<Longrightarrow> i = j"
proof -
  assume e: "string_of_int i = string_of_int j"
  have no: "45 # x \<noteq> string_of_nat n" for x n
  proof
    assume "45 # x = string_of_nat n"
    then have "45 \<in> set (string_of_nat n)" by (metis list.set_intros(1))
    with string_of_nat_digits [of n] show False by auto
  qed
  show ?thesis
  proof (cases "i < 0")
    case i: True
    show ?thesis
    proof (cases "j < 0")
      case True
      with i e have "string_of_nat (nat (- i)) = string_of_nat (nat (- j))"
        by (simp add: string_of_int_def)
      then have "nat (- i) = nat (- j)" by (rule string_of_nat_inj)
      with i True show ?thesis by linarith
    next
      case False
      with i e no show ?thesis by (simp add: string_of_int_def)
    qed
  next
    case i: False
    show ?thesis
    proof (cases "j < 0")
      case True
      with i e no [of "string_of_nat (nat (- j))" "nat i"] show ?thesis
        by (simp add: string_of_int_def)
    next
      case False
      with i e have "string_of_nat (nat i) = string_of_nat (nat j)"
        by (simp add: string_of_int_def)
      then have "nat i = nat j" by (rule string_of_nat_inj)
      with i False show ?thesis by linarith
    qed
  qed
qed

lemma versionKey_inj: "versionKey i = versionKey j \<Longrightarrow> i = j"
proof -
  assume "versionKey i = versionKey j"
  then have "string_of_int (i + 1) = string_of_int (j + 1)" by (simp add: versionKey_def)
  then have "i + 1 = j + 1" by (rule string_of_int_inj)
  then show ?thesis by simp
qed

lemma versionKey_nat: "versionKey (int n) = ascii ''v'' @ string_of_nat (n + 1)"
proof -
  have "nat (int n + 1) = n + 1" by simp
  then show ?thesis by (simp add: versionKey_def string_of_int_def)
qed

lemma positionIds_length: "length (positionIds n) = n"
  by (simp add: positionIds_def)

lemma positionIds_Suc: "positionIds (Suc n) = positionIds n @ [versionKey (int n)]"
  by (simp add: positionIds_def)

lemma positionIds_mem: "(versionKey i \<in> set (positionIds n)) = (0 \<le> i \<and> i < int n)"
proof
  assume "versionKey i \<in> set (positionIds n)"
  then obtain k where k: "k < n" "versionKey i = versionKey (int k)"
    by (auto simp add: positionIds_def)
  from k(2) have "i = int k" by (rule versionKey_inj)
  with k(1) show "0 \<le> i \<and> i < int n" by simp
next
  assume a: "0 \<le> i \<and> i < int n"
  define k where "k = nat i"
  from a have k: "k < n" "i = int k" unfolding k_def by linarith+
  from k(1) have "versionKey (int k) \<in> (\<lambda>x. versionKey (int x)) ` {0..<n}"
    by (intro image_eqI [where x = k]) simp_all
  then show "versionKey i \<in> set (positionIds n)"
    unfolding k(2) by (simp add: positionIds_def)
qed

lemma reset_fields:
  "reset p = p\<lparr>sourceNode := map_option (\<lambda>n. Stopped) (sourceNode p), isPlaying := False,
               offset := 0\<rparr>"
  by (simp add: reset_def stopSource_def)

lemma switch_by_key:
  assumes "previousVersionIndex \<noteq> versionIndex"
  shows "versionSwitchEffect ids previousVersionIndex versionIndex audioStates =
     ((if versionKey previousVersionIndex \<in> set ids
       then (case audioStates (versionKey previousVersionIndex) of
               None \<Rightarrow> audioStates
             | Some s \<Rightarrow>
                 audioStates(versionKey previousVersionIndex \<mapsto>
                   s\<lparr>audioPlayer := reset (audioPlayer s), playState := initial\<rparr>))
       else audioStates(versionKey previousVersionIndex := None)),
      versionIndex)"
proof -
  let ?k = "versionKey previousVersionIndex"
  have ex: "list_ex (\<lambda>i. i = ?k) ids = (?k \<in> set ids)" by (auto simp: list_ex_iff)
  from assms show ?thesis
    by (simp add: versionSwitchEffect_def ex Let_def split: option.splits)
qed

lemma text_effect_other:
  "k \<noteq> versionKey versionIndex \<Longrightarrow> textChangedEffect versionIndex T k = T k"
  by (simp add: textChangedEffect_def split: option.splits)

lemma two_ids: "[ascii ''v1'', ascii ''v2''] = positionIds 2"
proof -
  have "[0..<2] = [0, Suc 0]" by (simp add: upt_rec)
  then show ?thesis by (simp add: positionIds_def key0 key1)
qed

lemma one_id: "[ascii ''v1''] = positionIds 1"
  by (simp add: positionIds_def key0)

lemma twoPaused_eval:
  "twoPaused (ascii ''v1'') =
     Some \<lparr>audioPlayer = pausedPlayer, playState = paused, isGenerating = False\<rparr>"
  "twoPaused (ascii ''v2'') =
     Some \<lparr>audioPlayer = pausedPlayer, playState = paused, isGenerating = False\<rparr>"
  by (simp_all add: twoPaused_def pausedStates_def ascii_def)

lemma positionIds_take: "k \<le> n \<Longrightarrow> take k (positionIds n) = positionIds k"
  by (simp add: positionIds_def take_map)

lemma ids_textChange:
  assumes "map sv_id (versions s) = positionIds (length (versions s))"
  shows "map sv_id (versions (handleTextChange newText reply now s)) =
           positionIds (length (versions (handleTextChange newText reply now s)))"
proof -
  let ?s' = "handleTextChange newText reply now s"
  from textChange_effect [of newText reply now s]
  have "versions ?s' = versions s \<or> (\<exists>a. versions ?s' = [initialVersion newText a now])"
    by blast
  then show ?thesis
  proof
    assume "versions ?s' = versions s"
    with assms show ?thesis by simp
  next
    assume "\<exists>a. versions ?s' = [initialVersion newText a now]"
    then obtain a where "versions ?s' = [initialVersion newText a now]" by blast
    then show ?thesis using one_id by (simp add: initialVersion_def)
  qed
qed

lemma ids_rewrite:
  assumes "map sv_id (versions s) = positionIds (length (versions s))"
  shows "map sv_id (versions (handleRewrite d rw r1 r2 now s)) =
           positionIds (length (versions (handleRewrite d rw r1 r2 now s)))"
proof -
  let ?s' = "handleRewrite d rw r1 r2 now s"
  from rewrite_effect [of d rw r1 r2 now s]
  have "?s' = s \<or> (\<exists>v. sv_id v = ascii ''v'' @ string_of_nat (length (versions s) + 1)
        \<and> versions ?s' = versions s @ [v])"
    by blast
  then show ?thesis
  proof
    assume "?s' = s"
    with assms show ?thesis by simp
  next
    assume "\<exists>v. sv_id v = ascii ''v'' @ string_of_nat (length (versions s) + 1)
        \<and> versions ?s' = versions s @ [v]"
    then obtain v where v: "sv_id v = ascii ''v'' @ string_of_nat (length (versions s) + 1)"
      and e: "versions ?s' = versions s @ [v]"
      by blast
    from v have "sv_id v = versionKey (int (length (versions s)))"
      by (simp only: versionKey_nat)
    with assms show ?thesis unfolding e by (simp add: positionIds_Suc)
  qed
qed

lemma ids_update:
  assumes "map sv_id vs = positionIds (length vs)" "sv_id v = sv_id (vs ! k)"
  shows "map sv_id (vs[k := v]) = positionIds (length (vs[k := v]))"
proof (cases "k < length vs")
  case True
  with assms(2) have "map sv_id (vs[k := v]) = map sv_id vs"
    by (simp add: map_update list_update_same_conv)
  with assms(1) show ?thesis by simp
next
  case False
  with assms(1) show ?thesis by (simp add: list_update_beyond)
qed

lemma ids_reanalyze:
  assumes "map sv_id (versions s) = positionIds (length (versions s))"
  shows "map sv_id (versions (handleReanalyze reply now s)) =
           positionIds (length (versions (handleReanalyze reply now s)))"
proof -
  let ?s' = "handleReanalyze reply now s"
  from reanalyze_effect [of reply now s]
  have "?s' = s \<or> (\<exists>v cur. nth_opt (versions s) (currentVersionIndex s) = Some cur
        \<and> sv_id v = sv_id cur
        \<and> versions ?s' = (versions s)[nat (currentVersionIndex s) := v])"
    by blast
  then show ?thesis
  proof
    assume "?s' = s"
    with assms show ?thesis by simp
  next
    assume "\<exists>v cur. nth_opt (versions s) (currentVersionIndex s) = Some cur
        \<and> sv_id v = sv_id cur
        \<and> versions ?s' = (versions s)[nat (currentVersionIndex s) := v]"
    then obtain v cur where cur: "nth_opt (versions s) (currentVersionIndex s) = Some cur"
      and v: "sv_id v = sv_id cur"
      and e: "versions ?s' = (versions s)[nat (currentVersionIndex s) := v]"
      by blast
    from cur have "cur = versions s ! nat (currentVersionIndex s)"
      by (auto dest!: nth_opt_SomeD)
    with v have "sv_id v = sv_id (versions s ! nat (currentVersionIndex s))" by simp
    with assms show ?thesis unfolding e by (rule ids_update)
  qed
qed

lemma ids_nameSave:
  assumes "map sv_id (versions s) = positionIds (length (versions s))"
  shows "map sv_id (versions (handleVersionNameSave s)) =
           positionIds (length (versions (handleVersionNameSave s)))"
proof (cases "editVersionDialog s")
  case None
  with assms show ?thesis by (simp add: handleVersionNameSave_def)
next
  case (Some d)
  obtain i name where d: "d = (i, name)" by (cases d)
  let ?v = "(versions s ! nat i)\<lparr>sv_name := name\<rparr>"
  have s': "versions (handleVersionNameSave s) = (versions s)[nat i := ?v]"
    using Some d by (simp add: handleVersionNameSave_def)
  have "sv_id ?v = sv_id (versions s ! nat i)" by simp
  with assms show ?thesis unfolding s' by (rule ids_update)
qed

lemma ids_delete:
  assumes ids: "map sv_id (versions s) = positionIds (length (versions s))"
    and inv: "storeInv s" and en: "inRange s d"
    and no: "\<not> shifting s (VersionDelete d)"
  shows "map sv_id (versions (snd (handleVersionDelete d s))) =
           positionIds (length (versions (snd (handleVersionDelete d s))))"
proof (cases "d = 0")
  case True
  with ids show ?thesis by (simp add: handleVersionDelete_def)
next
  case False
  with en have d: "0 < d" "d < int (length (versions s))" by (auto simp: inRange_def)
  then have ne: "versions s \<noteq> []" by auto
  with inv have cur: "indexValid (versions s) (currentVersionIndex s)"
    by (simp add: storeInv_def activeValid_def)
  from no d have last: "nat d = length (versions s) - 1" by simp
  from d have "removeAt d (versions s) =
      take (nat d) (versions s) @ drop (Suc (nat d)) (versions s)"
    by (simp add: removeAt_in)
  with last ne have r: "removeAt d (versions s) = take (length (versions s) - 1) (versions s)"
    by simp
  have "map sv_id (take (length (versions s) - 1) (versions s)) =
      take (length (versions s) - 1) (map sv_id (versions s))"
    by (simp only: take_map)
  also have "\<dots> = take (length (versions s) - 1) (positionIds (length (versions s)))"
    by (simp only: ids [symmetric])
  also have "\<dots> = positionIds (length (versions s) - 1)"
    by (rule positionIds_take) simp
  finally show ?thesis by (simp add: delete_effect [OF d cur] r)
qed

lemma ids_step:
  assumes "map sv_id (versions s) = positionIds (length (versions s))" "storeInv s"
    "\<not> shifting s e"
  shows "map sv_id (versions (step e s)) = positionIds (length (versions (step e s)))"
proof (cases "enabled s e")
  case False
  with assms show ?thesis by (simp add: step_def)
next
  case True
  show ?thesis
  proof (cases e)
    case (TextChange t r n)
    with assms True show ?thesis by (simp add: step_def ids_textChange)
  next
    case (Rewrite d rw r1 r2 n)
    with assms True show ?thesis by (simp add: step_def ids_rewrite)
  next
    case (Reanalyze r n)
    with assms True show ?thesis by (simp add: step_def ids_reanalyze)
  next
    case (VersionChange i)
    with assms True show ?thesis
      using versionChange_effect [of "versions s" i s]
      by (simp add: step_def handleVersionChange_def)
  next
    case (VersionDelete d)
    with assms True have "inRange s d" "\<not> shifting s (VersionDelete d)" by simp_all
    with assms(1,2) have "map sv_id (versions (snd (handleVersionDelete d s))) =
           positionIds (length (versions (snd (handleVersionDelete d s))))"
      by (intro ids_delete)
    with VersionDelete True show ?thesis by (simp add: step_def)
  next
    case ToggleCompare
    with assms True show ?thesis by (simp add: step_def toggleCompareMode_def)
  next
    case (NameEditStart i)
    with assms True show ?thesis
      by (cases "nth_opt (versions s) i") (simp_all add: step_def handleVersionNameEditStart_def)
  next
    case (NameEdit n)
    with assms True show ?thesis by (simp add: step_def)
  next
    case NameSave
    with assms True show ?thesis by (simp add: step_def ids_nameSave)
  next
    case NameCancel
    with assms True show ?thesis by (simp add: step_def handleVersionNameCancel_def)
  qed
qed

lemma ids_exec:
  "map sv_id (versions s) = positionIds (length (versions s)) \<Longrightarrow> storeInv s \<Longrightarrow>
     noShifting es s \<Longrightarrow>
     map sv_id (versions (exec es s)) = positionIds (length (versions (exec es s)))"
  by (induction es arbitrary: s) (simp_all add: ids_step inv_step)

lemma ids_follow_positions:
  "noShifting es initApp \<Longrightarrow>
     map sv_id (versions (exec es initApp)) = positionIds (length (versions (exec es initApp)))"
proof -
  have "map sv_id (versions initApp) = positionIds (length (versions initApp))"
    by (simp add: initApp_def positionIds_def)
  then show "noShifting es initApp \<Longrightarrow>
     map sv_id (versions (exec es initApp)) = positionIds (length (versions (exec es initApp)))"
    by (intro ids_exec inv_init)
qed

text \<open>
  Claim C8, as amended. The state of a tab is kept under the key of its position, and
  the effect looks for a version whose id is this key; the two agree when the ids of the
  list follow the positions, as they do until a version other than the last one is
  deleted (\<open>ids_follow_positions\<close>), and the theorem is stated for such a list. When the
  tab changes and the previous version is still in the list, its audio state (when it
  has one) keeps the audio context, the decoded buffer and the start time, but its
  player is reset: the source is stopped, it is no longer playing, the offset is 0, and
  the state is \<open>initial\<close>. When the previous version is no longer in the list, its entry
  is removed from the table. The effect that runs for the text of the new tab does not
  touch the entry of the previous one.
\<close>

theorem version_switch_resets_previous:
  assumes "previousVersionIndex \<noteq> versionIndex"
    and "ids = positionIds (length ids)"
  shows "snd (versionSwitchEffect ids previousVersionIndex versionIndex audioStates) = versionIndex
   \<and> (versionKey previousVersionIndex \<in> set ids)
       = (0 \<le> previousVersionIndex \<and> previousVersionIndex < int (length ids))
   \<and> (0 \<le> previousVersionIndex \<and> previousVersionIndex < int (length ids) \<longrightarrow>
         fst (versionSwitchEffect ids previousVersionIndex versionIndex audioStates)
           (versionKey previousVersionIndex)
         = map_option
             (\<lambda>s. s\<lparr>audioPlayer :=
                       (audioPlayer s)\<lparr>sourceNode :=
                                          map_option (\<lambda>n. Stopped) (sourceNode (audioPlayer s)),
                                        isPlaying := False, offset := 0\<rparr>,
                     playState := initial\<rparr>)
             (audioStates (versionKey previousVersionIndex)))
   \<and> (\<not> (0 \<le> previousVersionIndex \<and> previousVersionIndex < int (length ids)) \<longrightarrow>
         fst (versionSwitchEffect ids previousVersionIndex versionIndex audioStates)
           (versionKey previousVersionIndex) = None)
   \<and> (\<forall>T. textChangedEffect versionIndex T (versionKey previousVersionIndex)
            = T (versionKey previousVersionIndex))"
proof -
  let ?k = "versionKey previousVersionIndex"
  let ?in = "0 \<le> previousVersionIndex \<and> previousVersionIndex < int (length ids)"
  have m: "(?k \<in> set ids) = ?in"
    by (subst assms(2)) (rule positionIds_mem)
  note u = switch_by_key [OF assms(1), of ids audioStates]
  have a: "snd (versionSwitchEffect ids previousVersionIndex versionIndex audioStates) = versionIndex"
    by (simp add: u)
  have b: "?in \<longrightarrow>
         fst (versionSwitchEffect ids previousVersionIndex versionIndex audioStates) ?k
         = map_option
             (\<lambda>s. s\<lparr>audioPlayer :=
                       (audioPlayer s)\<lparr>sourceNode :=
                                          map_option (\<lambda>n. Stopped) (sourceNode (audioPlayer s)),
                                        isPlaying := False, offset := 0\<rparr>,
                     playState := initial\<rparr>)
             (audioStates ?k)"
    unfolding u m by (cases "audioStates ?k") (simp_all add: reset_fields)
  have c: "\<not> ?in \<longrightarrow>
         fst (versionSwitchEffect ids previousVersionIndex versionIndex audioStates) ?k = None"
    unfolding u m by simp
  from assms(1) have "?k \<noteq> versionKey versionIndex" using versionKey_inj by blast
  then have d: "\<forall>T. textChangedEffect versionIndex T ?k = T ?k"
    by (simp add: text_effect_other)
  from a m b c d show ?thesis by (intro conjI)
qed

text \<open>
  Witness for C8. Both tabs are paused at five seconds. With the versions v1 and v2 in
  the list, the first tab is left for the second: its state keeps the buffer, with the
  offset 0. With v1 alone in the list, after the deletion of v2, the second tab is left
  for the first: its entry is removed.
\<close>

theorem version_switch_resets_previous_witness:
  "(0::int) \<noteq> 1
   \<and> [ascii ''v1'', ascii ''v2''] = positionIds (length [ascii ''v1'', ascii ''v2''])
   \<and> fst (versionSwitchEffect [ascii ''v1'', ascii ''v2''] 0 1 twoPaused) (ascii ''v1'')
       = Some \<lparr>audioPlayer = pausedPlayer\<lparr>offset := 0\<rparr>, playState = initial,
               isGenerating = False\<rparr>
   \<and> audioBuffer (pausedPlayer\<lparr>offset := 0\<rparr>) = Some sampleBuffer
   \<and> [ascii ''v1''] = positionIds (length [ascii ''v1''])
   \<and> twoPaused (ascii ''v2'') \<noteq> None
   \<and> fst (versionSwitchEffect [ascii ''v1''] 1 0 twoPaused) (ascii ''v2'') = None"
proof -
  have n: "(0::int) \<noteq> 1" "(1::int) \<noteq> 0" by simp_all
  have "length [ascii ''v1'', ascii ''v2''] = 2" by simp
  then have i2: "[ascii ''v1'', ascii ''v2''] = positionIds (length [ascii ''v1'', ascii ''v2''])"
    by (simp only: two_ids [symmetric])
  have "length [ascii ''v1''] = 1" by simp
  then have i1: "[ascii ''v1''] = positionIds (length [ascii ''v1''])"
    by (simp only: one_id [symmetric])
  from version_switch_resets_previous [OF n(1) i2, of twoPaused]
  have a: "fst (versionSwitchEffect [ascii ''v1'', ascii ''v2''] 0 1 twoPaused) (ascii ''v1'')
       = Some \<lparr>audioPlayer = pausedPlayer\<lparr>offset := 0\<rparr>, playState = initial,
               isGenerating = False\<rparr>"
    by (simp add: key0 twoPaused_eval pausedPlayer_def)
  from version_switch_resets_previous [OF n(2) i1, of twoPaused]
  have b: "fst (versionSwitchEffect [ascii ''v1''] 1 0 twoPaused) (ascii ''v2'') = None"
    by (simp add: key1)
  have c: "audioBuffer (pausedPlayer\<lparr>offset := 0\<rparr>) = Some sampleBuffer"
    by (simp add: pausedPlayer_def)
  have d: "twoPaused (ascii ''v2'') \<noteq> None" by (simp add: twoPaused_eval)
  from n(1) i2 a c i1 d b show ?thesis by (intro conjI)
qed

text \<open>
  Counterexample to C8 as stated: the first tab is paused at five seconds and its
  version is still in the list; after the switch to the second tab its player holds the
  same buffer, but the offset is 0, so that a later \<^verbatim>\<open>play\<close> starts from the beginning.
\<close>

theorem switch_loses_paused_offset:
  "map_option (offset \<circ> audioPlayer) (pausedStates (ascii ''v1'')) = Some 5
   \<and> versionKey 0 \<in> set [ascii ''v1'', ascii ''v2'']
   \<and> map_option (offset \<circ> audioPlayer)
        (fst (versionSwitchEffect [ascii ''v1'', ascii ''v2''] 0 1 pausedStates) (ascii ''v1''))
       = Some 0
   \<and> map_option (audioBuffer \<circ> audioPlayer)
        (fst (versionSwitchEffect [ascii ''v1'', ascii ''v2''] 0 1 pausedStates) (ascii ''v1''))
       = Some (Some sampleBuffer)
   \<and> map_option (startTime \<circ> play 100 \<circ> audioPlayer)
        (fst (versionSwitchEffect [ascii ''v1'', ascii ''v2''] 0 1 pausedStates) (ascii ''v1''))
       = Some 100"
  by (simp add: versionSwitchEffect_def key0 paused_v1 pausedPlayer_def reset_fields play_def
        stopSource_def)

end
